theory Spec2Isabelle
  imports Main "HOL-Library.Word"
begin

section \<open>PHASMOWATCH: pointer-chain loader, resolver and majority vote\<close>

text \<open>
  A shallow embedding of \<^verbatim>\<open>src/main.py\<close>. Python integers are unbounded, so addresses,
  offsets and values are \<^typ>\<open>int\<close>; Python strings are \<^typ>\<open>string\<close> (the model covers
  ASCII text); every exception the source can raise is a value of \<open>py_error\<close>.
\<close>

subsection \<open>Exceptions\<close>

datatype py_error =
    ValueError
  | IndexError
  | AttributeError
  | StructError
  | MemoryReadError
  | ProcessError
  | OSError

subsection \<open>String primitives of the Python library\<close>

text \<open>\<^verbatim>\<open>str.strip()\<close> removes the characters for which \<^verbatim>\<open>str.isspace\<close> holds; in ASCII these
  are the codes 9 to 13, 28 to 31 and 32.\<close>

definition is_space :: "char \<Rightarrow> bool" where
  "is_space c = (let n = (of_char c :: nat) in (9 \<le> n \<and> n \<le> 13) \<or> (28 \<le> n \<and> n \<le> 32))"

definition strip :: "string \<Rightarrow> string" where
  "strip s = rev (dropWhile is_space (rev (dropWhile is_space s)))"

text \<open>\<^verbatim>\<open>s.replace('"', "")\<close>: every double-quote character (code 34) is deleted.\<close>

definition remove_quotes :: "string \<Rightarrow> string" where
  "remove_quotes s = filter (\<lambda>c. c \<noteq> CHR 0x22) s"

text \<open>\<^verbatim>\<open>s.replace("0x", "")\<close>: the non-overlapping occurrences of \<^verbatim>\<open>0x\<close> are deleted,
  scanning from the left.\<close>

fun remove_0x :: "string \<Rightarrow> string" where
  "remove_0x [] = []"
| "remove_0x [c] = [c]"
| "remove_0x (c # d # cs) =
     (if c = CHR ''0'' \<and> d = CHR ''x'' then remove_0x cs else c # remove_0x (d # cs))"

text \<open>\<^verbatim>\<open>str.lower()\<close> on ASCII letters.\<close>

definition lower_char :: "char \<Rightarrow> char" where
  "lower_char c = (let n = (of_char c :: nat) in if 65 \<le> n \<and> n \<le> 90 then char_of (n + 32) else c)"

definition lower :: "string \<Rightarrow> string" where
  "lower s = map lower_char s"

subsection \<open>\<^verbatim>\<open>int(text, 16)\<close>\<close>

text \<open>
  The library function as CPython implements it: leading C whitespace (codes 9 to 13 and 32)
  is skipped, then an optional sign, then an optional \<^verbatim>\<open>0x\<close> or \<^verbatim>\<open>0X\<close> prefix which may be
  followed by one underscore; the digits may be separated by single underscores; at least
  one digit is required; only C whitespace may follow. Anything else raises
  \<^verbatim>\<open>ValueError\<close>.
\<close>

definition is_c_space :: "char \<Rightarrow> bool" where
  "is_c_space c = (let n = (of_char c :: nat) in (9 \<le> n \<and> n \<le> 13) \<or> n = 32)"

definition hex_digit_value :: "char \<Rightarrow> nat option" where
  "hex_digit_value c =
     (let n = (of_char c :: nat) in
      if 48 \<le> n \<and> n \<le> 57 then Some (n - 48)
      else if 97 \<le> n \<and> n \<le> 102 then Some (n - 87)
      else if 65 \<le> n \<and> n \<le> 70 then Some (n - 55)
      else None)"

fun scan_digits :: "bool \<Rightarrow> nat \<Rightarrow> string \<Rightarrow> (nat \<times> string) option" where
  "scan_digits prev_underscore acc [] = (if prev_underscore then None else Some (acc, []))"
| "scan_digits prev_underscore acc (c # cs) =
     (if c = CHR ''_'' then (if prev_underscore then None else scan_digits True acc cs)
      else (case hex_digit_value c of
              Some d \<Rightarrow> scan_digits False (16 * acc + d) cs
            | None \<Rightarrow> (if prev_underscore then None else Some (acc, c # cs))))"

definition skip_sign :: "string \<Rightarrow> int \<times> string" where
  "skip_sign s =
     (case s of
        [] \<Rightarrow> (1, [])
      | c # cs \<Rightarrow> if c = CHR ''+'' then (1, cs) else if c = CHR ''-'' then (- 1, cs) else (1, s))"

definition skip_prefix :: "string \<Rightarrow> string" where
  "skip_prefix s =
     (case s of
        c # d # cs \<Rightarrow>
          if c = CHR ''0'' \<and> (d = CHR ''x'' \<or> d = CHR ''X'')
          then (case cs of u # us \<Rightarrow> if u = CHR ''_'' then us else cs | [] \<Rightarrow> cs)
          else s
      | _ \<Rightarrow> s)"

definition py_int16 :: "string \<Rightarrow> py_error + int" where
  "py_int16 text =
     (let (sign, s) = skip_sign (dropWhile is_c_space text);
          body = skip_prefix s
      in case body of
           [] \<Rightarrow> Inl ValueError
         | c # _ \<Rightarrow>
             if hex_digit_value c = None then Inl ValueError
             else (case scan_digits False 0 body of
                     None \<Rightarrow> Inl ValueError
                   | Some (v, rest) \<Rightarrow>
                       if dropWhile is_c_space rest = [] then Inr (sign * int v)
                       else Inl ValueError))"

subsection \<open>The chain definition loader\<close>

text \<open>\<^verbatim>\<open>parse_address_spec\<close>: \<^verbatim>\<open>s.split("+", 1)\<close> cuts at the first \<^verbatim>\<open>+\<close>; without one it
  returns a single piece and the unpacking into \<^verbatim>\<open>module, off\<close> raises \<^verbatim>\<open>ValueError\<close>.\<close>

definition parse_address_spec :: "string \<Rightarrow> py_error + (string \<times> int)" where
  "parse_address_spec spec =
     (let s = remove_quotes (strip spec) in
      if CHR ''+'' \<notin> set s then Inl ValueError
      else
        (let module = takeWhile (\<lambda>c. c \<noteq> CHR ''+'') s;
             off = tl (dropWhile (\<lambda>c. c \<noteq> CHR ''+'') s)
         in case py_int16 (remove_0x (strip off)) of
              Inl e \<Rightarrow> Inl e
            | Inr n \<Rightarrow> Inr (strip module, n)))"

text \<open>\<^verbatim>\<open>parse_offsets\<close>: an offset node is its text, \<open>None\<close> when the element is empty.\<close>

fun parse_offsets :: "string option list \<Rightarrow> py_error + int list" where
  "parse_offsets [] = Inr []"
| "parse_offsets (n # ns) =
     (let txt = remove_0x (lower (strip (case n of None \<Rightarrow> [] | Some t \<Rightarrow> t))) in
      if txt \<noteq> [] then
        (case py_int16 txt of
           Inl e \<Rightarrow> Inl e
         | Inr v \<Rightarrow> (case parse_offsets ns of Inl e \<Rightarrow> Inl e | Inr offs \<Rightarrow> Inr (v # offs)))
      else parse_offsets ns)"

text \<open>A \<^verbatim>\<open>CheatEntry\<close> element as \<^verbatim>\<open>load_entries\<close> sees it: the text of its \<^verbatim>\<open>Address\<close>
  child (\<open>None\<close> when there is none) and, when it has an \<^verbatim>\<open>Offsets\<close> child, the
  \<^verbatim>\<open>Offset\<close> nodes of that child in file order.\<close>

record CheatEntry =
  Address :: "string option"
  Offsets :: "string option list option"

type_synonym entry = "string \<times> int \<times> int list"

fun load_entries :: "CheatEntry list \<Rightarrow> py_error + entry list" where
  "load_entries [] = Inr []"
| "load_entries (e # es) =
     (case (case Offsets e of
              None \<Rightarrow> Inr []
            | Some nodes \<Rightarrow> (case parse_offsets nodes of Inl err \<Rightarrow> Inl err | Inr offs \<Rightarrow> Inr (rev offs))) of
        Inl err \<Rightarrow> Inl err
      | Inr offsets \<Rightarrow>
          (case Address e of
             None \<Rightarrow> load_entries es
           | Some addr_spec \<Rightarrow>
               if addr_spec = [] then load_entries es
               else (case parse_address_spec addr_spec of
                       Inl err \<Rightarrow> Inl err
                     | Inr (module_name, base_offset) \<Rightarrow>
                         (case load_entries es of
                            Inl err \<Rightarrow> Inl err
                          | Inr parsed \<Rightarrow> Inr ((module_name, base_offset, offsets) # parsed)))))"

subsection \<open>The remote memory accessor\<close>

text \<open>
  The \<^verbatim>\<open>Pymem\<close> handle is an external collaborator; the model takes what the source uses
  of it. \<open>module_from_name\<close> is the \<^verbatim>\<open>lpBaseOfDll\<close> of the module found (the library
  returns \<^verbatim>\<open>None\<close> for an unknown name, or raises); \<open>read_bytes\<close> returns the bytes or
  raises; \<open>close_process\<close> is the exception raised by \<^verbatim>\<open>pm.close_process()\<close>, if any.
\<close>

type_synonym byte = "8 word"

record Pymem =
  module_from_name :: "string \<Rightarrow> py_error + int option"
  read_bytes :: "int \<Rightarrow> nat \<Rightarrow> py_error + byte list"
  close_process :: "py_error option"

text \<open>\<^verbatim>\<open>int.from_bytes(bs, "little")\<close>, for a byte string of any length.\<close>

fun from_bytes_little :: "byte list \<Rightarrow> int" where
  "from_bytes_little [] = 0"
| "from_bytes_little (b # bs) = uint b + 256 * from_bytes_little bs"

text \<open>\<^verbatim>\<open>struct.unpack("<i", raw)[0]\<close>: exactly four bytes, read as two's complement.\<close>

definition unpack_i32 :: "byte list \<Rightarrow> py_error + int" where
  "unpack_i32 raw =
     (if length raw \<noteq> 4 then Inl StructError
      else (let u = from_bytes_little raw in Inr (if u \<ge> 2 ^ 31 then u - 2 ^ 32 else u)))"

subsection \<open>The pointer chain resolver\<close>

text \<open>The loop \<^verbatim>\<open>for off in offsets[:-1]\<close> of \<^verbatim>\<open>resolve_pointer\<close>, applied to the offsets
  still to follow.\<close>

fun follow :: "Pymem \<Rightarrow> int \<Rightarrow> int list \<Rightarrow> py_error + int" where
  "follow pm addr [] = Inr addr"
| "follow pm addr (off # offs) =
     (case read_bytes pm (addr + off) 8 of
        Inl e \<Rightarrow> Inl e
      | Inr addr_bytes \<Rightarrow> follow pm (from_bytes_little addr_bytes) offs)"

text \<open>The body of the \<^verbatim>\<open>try\<close> block: \<^verbatim>\<open>offsets[:-1]\<close> is \<open>butlast\<close>, and
  \<^verbatim>\<open>offsets[-1]\<close> is read only when the list is not empty.\<close>

definition resolve_pointer_body :: "Pymem \<Rightarrow> string \<Rightarrow> int \<Rightarrow> int list \<Rightarrow> py_error + int" where
  "resolve_pointer_body pm module_name base_offset offsets =
     (case module_from_name pm module_name of
        Inl e \<Rightarrow> Inl e
      | Inr None \<Rightarrow> Inl AttributeError
      | Inr (Some lpBaseOfDll) \<Rightarrow>
          (let base_addr = lpBaseOfDll + base_offset in
           case read_bytes pm base_addr 8 of
             Inl e \<Rightarrow> Inl e
           | Inr addr_bytes \<Rightarrow>
               (case follow pm (from_bytes_little addr_bytes) (butlast offsets) of
                  Inl e \<Rightarrow> Inl e
                | Inr addr \<Rightarrow> Inr (addr + (if offsets \<noteq> [] then last offsets else 0)))))"

text \<open>\<^verbatim>\<open>except Exception: return None\<close>.\<close>

definition resolve_pointer :: "Pymem \<Rightarrow> string \<Rightarrow> int \<Rightarrow> int list \<Rightarrow> int option" where
  "resolve_pointer pm module_name base_offset offsets =
     (case resolve_pointer_body pm module_name base_offset offsets of
        Inl e \<Rightarrow> None
      | Inr addr \<Rightarrow> Some addr)"

text \<open>The addresses at which \<^verbatim>\<open>resolve_pointer\<close> calls \<^verbatim>\<open>pm.read_bytes\<close>, in order, up to
  and including the first read that raises.\<close>

fun follow_reads :: "Pymem \<Rightarrow> int \<Rightarrow> int list \<Rightarrow> int list" where
  "follow_reads pm addr [] = []"
| "follow_reads pm addr (off # offs) =
     (addr + off) #
     (case read_bytes pm (addr + off) 8 of
        Inl e \<Rightarrow> []
      | Inr addr_bytes \<Rightarrow> follow_reads pm (from_bytes_little addr_bytes) offs)"

definition reads_performed :: "Pymem \<Rightarrow> string \<Rightarrow> int \<Rightarrow> int list \<Rightarrow> int list" where
  "reads_performed pm module_name base_offset offsets =
     (case module_from_name pm module_name of
        Inr (Some lpBaseOfDll) \<Rightarrow>
          (lpBaseOfDll + base_offset) #
          (case read_bytes pm (lpBaseOfDll + base_offset) 8 of
             Inl e \<Rightarrow> []
           | Inr addr_bytes \<Rightarrow> follow_reads pm (from_bytes_little addr_bytes) (butlast offsets))
      | _ \<Rightarrow> [])"

text \<open>The resolution algorithm in the words of the specification: dereference at
  \<open>module_base + base_offset\<close>, then chase every offset except the last, then add the last
  offset (or 0) without a further dereference.\<close>

definition spec_read_pointer :: "Pymem \<Rightarrow> int \<Rightarrow> int option" where
  "spec_read_pointer pm a =
     (case read_bytes pm a 8 of Inl e \<Rightarrow> None | Inr bs \<Rightarrow> Some (from_bytes_little bs))"

fun spec_chase :: "Pymem \<Rightarrow> int \<Rightarrow> int list \<Rightarrow> int option" where
  "spec_chase pm addr [] = Some (addr + 0)"
| "spec_chase pm addr [last_offset] = Some (addr + last_offset)"
| "spec_chase pm addr (offset # rest) =
     (case spec_read_pointer pm (addr + offset) of
        None \<Rightarrow> None
      | Some next_addr \<Rightarrow> spec_chase pm next_addr rest)"

definition spec_resolve :: "Pymem \<Rightarrow> string \<Rightarrow> int \<Rightarrow> int list \<Rightarrow> int option" where
  "spec_resolve pm module_name base_offset offsets =
     (case module_from_name pm module_name of
        Inr (Some module_base) \<Rightarrow>
          (case spec_read_pointer pm (module_base + base_offset) of
             None \<Rightarrow> None
           | Some addr \<Rightarrow> spec_chase pm addr offsets)
      | _ \<Rightarrow> None)"

subsection \<open>The stabilization aggregator\<close>

definition read_int32 :: "Pymem \<Rightarrow> int \<Rightarrow> py_error + int" where
  "read_int32 pm addr =
     (case read_bytes pm addr 4 of Inl e \<Rightarrow> Inl e | Inr raw \<Rightarrow> unpack_i32 raw)"

text \<open>The loop that fills \<^verbatim>\<open>results\<close>: \<^verbatim>\<open>if addr:\<close> is false for \<^verbatim>\<open>None\<close> and for 0, and a
  value read that raises skips the entry.\<close>

fun collect_results :: "Pymem \<Rightarrow> entry list \<Rightarrow> (int \<times> int) list" where
  "collect_results pm [] = []"
| "collect_results pm ((module_name, base_offset, offsets) # entries) =
     (case resolve_pointer pm module_name base_offset offsets of
        None \<Rightarrow> collect_results pm entries
      | Some addr \<Rightarrow>
          if addr \<noteq> 0 then
            (case read_int32 pm addr of
               Inl e \<Rightarrow> collect_results pm entries
             | Inr val \<Rightarrow> (addr, val) # collect_results pm entries)
          else collect_results pm entries)"

text \<open>\<^verbatim>\<open>collections.Counter\<close>: a dictionary in insertion order, here an association list.
  Counting an element increments its entry or appends a new one at the end.\<close>

fun counter_incr :: "int \<Rightarrow> (int \<times> nat) list \<Rightarrow> (int \<times> nat) list" where
  "counter_incr a [] = [(a, 1)]"
| "counter_incr a ((k, n) # kvs) =
     (if k = a then (k, n + 1) # kvs else (k, n) # counter_incr a kvs)"

definition Counter :: "int list \<Rightarrow> (int \<times> nat) list" where
  "Counter xs = foldl (\<lambda>c a. counter_incr a c) [] xs"

text \<open>\<^verbatim>\<open>most_common(1)\<close> is \<^verbatim>\<open>max(items, key=count)\<close>, and \<^verbatim>\<open>max\<close> keeps the first of
  several maximal items.\<close>

fun max_by_count :: "(int \<times> nat) \<Rightarrow> (int \<times> nat) list \<Rightarrow> (int \<times> nat)" where
  "max_by_count best [] = best"
| "max_by_count best (kv # kvs) = max_by_count (if snd kv > snd best then kv else best) kvs"

definition most_common1 :: "(int \<times> nat) list \<Rightarrow> (int \<times> nat) list" where
  "most_common1 c = (case c of [] \<Rightarrow> [] | kv # kvs \<Rightarrow> [max_by_count kv kvs])"

definition vote :: "int list \<Rightarrow> (int \<times> nat) list" where
  "vote addrs = most_common1 (Counter addrs)"

text \<open>What a successful cycle hands to \<^verbatim>\<open>draw_value_line\<close>: \<^verbatim>\<open>best_addr\<close>, \<^verbatim>\<open>value\<close>,
  \<^verbatim>\<open>count\<close> and \<^verbatim>\<open>len(results)\<close>, under the names the specification gives them.\<close>

record StabilizedResult =
  winning_address :: int
  stabilized_value :: int
  agreement_count :: nat
  total_resolved :: nat

datatype outcome =
    NoValidPointers
  | MemoryReadFailed
  | Stabilized StabilizedResult
  | Raised py_error

definition stabilize :: "Pymem \<Rightarrow> entry list \<Rightarrow> outcome" where
  "stabilize pm entries =
     (let results = collect_results pm entries in
      if results = [] then NoValidPointers
      else
        (let addrs = map fst results in
         case vote addrs of
           [] \<Rightarrow> Raised IndexError
         | (best_addr, count) # _ \<Rightarrow>
             (case read_int32 pm best_addr of
                Inl e \<Rightarrow> MemoryReadFailed
              | Inr val \<Rightarrow>
                  Stabilized \<lparr>winning_address = best_addr, stabilized_value = val,
                    agreement_count = count, total_resolved = length results\<rparr>)))"

text \<open>The position of the first occurrence of an address in a list.\<close>

definition first_index :: "int list \<Rightarrow> int \<Rightarrow> nat" where
  "first_index xs a = length (takeWhile (\<lambda>x. x \<noteq> a) xs)"

subsection \<open>One iteration of the poll loop\<close>

text \<open>
  The body of \<^verbatim>\<open>while RUNNING\<close> in \<^verbatim>\<open>main\<close>, as a statement over an explicit state: the
  trace of what the iteration did to the outside world, and the number of one-second sleeps
  so far. The environment holds what the iteration asks of the outside world: the process
  list, the attach call, the flag \<^verbatim>\<open>RUNNING\<close> (set by the signal handler, so it is read as a
  function of the elapsed ticks), the configured interval, and whether writing a message to
  the terminal raises.
\<close>

datatype display =
    Header
  | GameNotRunning
  | CouldNotAttach
  | NoValidPointersMsg
  | MemoryReadFailedMsg
  | ValueLine StabilizedResult
  | GhostChart int
  | EvidenceChart int
  | Refreshing

datatype event =
    ClearScreen
  | Print display
  | Attach
  | CloseProcess bool
  | Sleep

record loop_state =
  events :: "event list"
  ticks :: nat

record environment =
  find_pid_by_name :: "nat option"
  attach_process :: "py_error + Pymem"
  RUNNING :: "nat \<Rightarrow> bool"
  REFRESH_INTERVAL :: int
  print_raises :: "display \<Rightarrow> bool"

text \<open>How a statement ends: it falls through, executes \<^verbatim>\<open>continue\<close>, or raises.\<close>

datatype completion = Normal | Continue | Raise py_error

type_synonym stmt = "loop_state \<Rightarrow> completion \<times> loop_state"

definition seq :: "stmt \<Rightarrow> stmt \<Rightarrow> stmt" where
  "seq first second s =
     (case first s of
        (Normal, s') \<Rightarrow> second s'
      | (c, s') \<Rightarrow> (c, s'))"

text \<open>\<^verbatim>\<open>try: body finally: handler\<close>. The handler runs however the body ends; when the
  handler falls through, the statement ends as the body did.\<close>

definition try_finally :: "stmt \<Rightarrow> stmt \<Rightarrow> stmt" where
  "try_finally body handler s =
     (case body s of
        (c, s') \<Rightarrow>
          (case handler s' of
             (Normal, s'') \<Rightarrow> (c, s'')
           | (c', s'') \<Rightarrow> (c', s'')))"

definition emit :: "event \<Rightarrow> stmt" where
  "emit ev s = (Normal, s\<lparr>events := events s @ [ev]\<rparr>)"

definition print_msg :: "environment \<Rightarrow> display \<Rightarrow> stmt" where
  "print_msg env msg s =
     (if print_raises env msg then (Raise OSError, s)
      else (Normal, s\<lparr>events := events s @ [Print msg]\<rparr>))"

definition continue_stmt :: stmt where
  "continue_stmt s = (Continue, s)"

text \<open>\<^verbatim>\<open>for _ in range(max(1, REFRESH_INTERVAL)): if not RUNNING: break; time.sleep(1)\<close>.\<close>

fun wait_ticks :: "environment \<Rightarrow> nat \<Rightarrow> loop_state \<Rightarrow> loop_state" where
  "wait_ticks env 0 s = s"
| "wait_ticks env (Suc n) s =
     (if \<not> RUNNING env (ticks s) then s
      else wait_ticks env n (s\<lparr>events := events s @ [Sleep], ticks := Suc (ticks s)\<rparr>))"

definition refresh_wait :: "environment \<Rightarrow> stmt" where
  "refresh_wait env s = (Normal, wait_ticks env (nat (max 1 (REFRESH_INTERVAL env))) s)"

text \<open>The \<^verbatim>\<open>try\<close> block that runs with the handle attached. The two charts are drawn from
  the name that \<^verbatim>\<open>GHOST_TYPES\<close> gives the value; the events carry the value itself.\<close>

definition cycle_body :: "environment \<Rightarrow> Pymem \<Rightarrow> entry list \<Rightarrow> stmt" where
  "cycle_body env pm entries =
     (case stabilize pm entries of
        NoValidPointers \<Rightarrow>
          seq (print_msg env NoValidPointersMsg) (seq (refresh_wait env) continue_stmt)
      | MemoryReadFailed \<Rightarrow>
          seq (print_msg env MemoryReadFailedMsg) (seq (refresh_wait env) continue_stmt)
      | Raised e \<Rightarrow> (\<lambda>s. (Raise e, s))
      | Stabilized r \<Rightarrow>
          seq (print_msg env (ValueLine r))
            (seq (print_msg env (GhostChart (stabilized_value r)))
              (seq (print_msg env (EvidenceChart (stabilized_value r)))
                (seq (print_msg env Refreshing) (refresh_wait env)))))"

text \<open>The \<^verbatim>\<open>finally\<close> block: \<^verbatim>\<open>pm.close_process()\<close> is called (a handle object is true
  in \<^verbatim>\<open>if pm:\<close>), and what it raises is swallowed; the event records whether the call
  returned.\<close>

definition close_handle :: "Pymem \<Rightarrow> stmt" where
  "close_handle pm = emit (CloseProcess (close_process pm = None))"

definition poll_cycle :: "environment \<Rightarrow> entry list \<Rightarrow> stmt" where
  "poll_cycle env entries =
     seq (emit ClearScreen)
       (seq (print_msg env Header)
         (case find_pid_by_name env of
            None \<Rightarrow> seq (print_msg env GameNotRunning) (seq (refresh_wait env) continue_stmt)
          | Some pid \<Rightarrow>
              if pid = 0 then
                seq (print_msg env GameNotRunning) (seq (refresh_wait env) continue_stmt)
              else
                (case attach_process env of
                   Inl e \<Rightarrow> seq (print_msg env CouldNotAttach) (seq (refresh_wait env) continue_stmt)
                 | Inr pm \<Rightarrow>
                     seq (emit Attach) (try_finally (cycle_body env pm entries) (close_handle pm)))))"

text \<open>Reading a trace: whether the handle is held after it, and whether a sleep happens
  while the handle is held.\<close>

fun held_after :: "bool \<Rightarrow> event list \<Rightarrow> bool" where
  "held_after held [] = held"
| "held_after held (Attach # evs) = held_after True evs"
| "held_after held (CloseProcess ok # evs) = held_after False evs"
| "held_after held (ev # evs) = held_after held evs"

fun sleeps_while_held :: "bool \<Rightarrow> event list \<Rightarrow> bool" where
  "sleeps_while_held held [] = False"
| "sleeps_while_held held (Attach # evs) = sleeps_while_held True evs"
| "sleeps_while_held held (CloseProcess ok # evs) = sleeps_while_held False evs"
| "sleeps_while_held held (Sleep # evs) = (held \<or> sleeps_while_held held evs)"
| "sleeps_while_held held (ev # evs) = sleeps_while_held held evs"

definition is_handle_event :: "event \<Rightarrow> bool" where
  "is_handle_event ev = (case ev of Attach \<Rightarrow> True | CloseProcess ok \<Rightarrow> True | _ \<Rightarrow> False)"

subsection \<open>Memory images used in the examples\<close>

text \<open>Module \<^verbatim>\<open>Core\<close> at \<open>0x1000\<close>; the pointer at \<open>0x1010\<close> is \<open>0x2000\<close> and the pointer at
  \<open>0x2004\<close> is \<open>0x3000\<close>; every other read raises.\<close>

definition scenario_pm :: Pymem where
  "scenario_pm =
     \<lparr>module_from_name = (\<lambda>name. if name = ''Core'' then Inr (Some 0x1000) else Inr None),
      read_bytes = (\<lambda>addr n.
        if addr = 0x1010 \<and> n = 8 then Inr [0x00, 0x20, 0, 0, 0, 0, 0, 0]
        else if addr = 0x2004 \<and> n = 8 then Inr [0x00, 0x30, 0, 0, 0, 0, 0, 0]
        else Inl MemoryReadError),
      close_process = None\<rparr>"

text \<open>The same image with further pointers at \<open>0x1018\<close> (to \<open>0x3000\<close>), \<open>0x1020\<close> (to
  \<open>0x4000\<close>) and \<open>0x1028\<close> (to 0), and the 32-bit values 7 at \<open>0x3008\<close> and 9 at \<open>0x4000\<close>.\<close>

definition voting_pm :: Pymem where
  "voting_pm =
     \<lparr>module_from_name = (\<lambda>name. if name = ''Core'' then Inr (Some 0x1000) else Inr None),
      read_bytes = (\<lambda>addr n.
        if addr = 0x1010 \<and> n = 8 then Inr [0x00, 0x20, 0, 0, 0, 0, 0, 0]
        else if addr = 0x2004 \<and> n = 8 then Inr [0x00, 0x30, 0, 0, 0, 0, 0, 0]
        else if addr = 0x1018 \<and> n = 8 then Inr [0x00, 0x30, 0, 0, 0, 0, 0, 0]
        else if addr = 0x1020 \<and> n = 8 then Inr [0x00, 0x40, 0, 0, 0, 0, 0, 0]
        else if addr = 0x1028 \<and> n = 8 then Inr [0, 0, 0, 0, 0, 0, 0, 0]
        else if addr = 0x3008 \<and> n = 4 then Inr [7, 0, 0, 0]
        else if addr = 0x4000 \<and> n = 4 then Inr [9, 0, 0, 0]
        else Inl MemoryReadError),
      close_process = None\<rparr>"

definition voting_entries :: "entry list" where
  "voting_entries = [(''Core'', 0x10, [0x4, 0x8]), (''Core'', 0x18, [0x8]), (''Core'', 0x20, [])]"

definition example_env :: "Pymem \<Rightarrow> environment" where
  "example_env pm =
     \<lparr>find_pid_by_name = Some 4242, attach_process = Inr pm, RUNNING = (\<lambda>t. True),
      REFRESH_INTERVAL = 2, print_raises = (\<lambda>msg. False)\<rparr>"

definition initial_state :: loop_state where
  "initial_state = \<lparr>events = [], ticks = 0\<rparr>"

subsection \<open>Auxiliary notions for stating the loader's properties\<close>

text \<open>The offsets of an entry in file order, as \<^verbatim>\<open>parse_offsets\<close> returns them, and whether
  \<^verbatim>\<open>load_entries\<close> keeps the entry (\<^verbatim>\<open>if not addr_spec: continue\<close>).\<close>

definition file_offsets :: "CheatEntry \<Rightarrow> py_error + int list" where
  "file_offsets e = (case Offsets e of None \<Rightarrow> Inr [] | Some nodes \<Rightarrow> parse_offsets nodes)"

definition has_address :: "CheatEntry \<Rightarrow> bool" where
  "has_address e = (case Address e of None \<Rightarrow> False | Some addr_spec \<Rightarrow> addr_spec \<noteq> [])"

definition example_entry :: CheatEntry where
  "example_entry = \<lparr>Address = Some ''Core+0x10'', Offsets = Some [Some ''0x8'', Some ''0x4'']\<rparr>"

subsection \<open>Auxiliary notions for stating the aggregator's properties\<close>

text \<open>An entry is tallied when it contributes a pair to \<^verbatim>\<open>results\<close>: its chain resolves, the
  address is not 0, and the 4-byte value at the address can be read.\<close>

definition tallied :: "Pymem \<Rightarrow> entry \<Rightarrow> bool" where
  "tallied pm e =
     (case e of (module_name, base_offset, offsets) \<Rightarrow>
        (case resolve_pointer pm module_name base_offset offsets of
           None \<Rightarrow> False
         | Some addr \<Rightarrow> addr \<noteq> 0 \<and> \<not> isl (read_int32 pm addr)))"

text \<open>The entry whose chain ends at \<open>0x3010\<close>, where no value can be read, and the entry
  whose chain ends at address 0.\<close>

definition unreadable_entry :: entry where
  "unreadable_entry = (''Core'', 0x10, [0x4, 0x10])"

definition null_entry :: entry where
  "null_entry = (''Core'', 0x28, [])"

subsection \<open>Auxiliary notions for stating the poll loop's properties\<close>

text \<open>The results a trace hands to \<^verbatim>\<open>draw_value_line\<close>, in order.\<close>

fun shown_results :: "event list \<Rightarrow> StabilizedResult list" where
  "shown_results [] = []"
| "shown_results (Print (ValueLine r) # evs) = r # shown_results evs"
| "shown_results (ev # evs) = shown_results evs"

text \<open>What one iteration adds to the trace, and the results it shows.\<close>

definition new_events :: "environment \<Rightarrow> entry list \<Rightarrow> loop_state \<Rightarrow> event list" where
  "new_events env entries s = drop (length (events s)) (events (snd (poll_cycle env entries s)))"

definition cycle_result :: "environment \<Rightarrow> entry list \<Rightarrow> loop_state \<Rightarrow> StabilizedResult list" where
  "cycle_result env entries s = shown_results (new_events env entries s)"

text \<open>A stretch of trace in which the handle is neither acquired nor released.\<close>

definition quiet :: "event list \<Rightarrow> bool" where
  "quiet evs = list_all (\<lambda>ev. \<not> is_handle_event ev) evs"

text \<open>A statement only appends to the trace, and only events of a given kind.\<close>

definition emits_only :: "stmt \<Rightarrow> (event \<Rightarrow> bool) \<Rightarrow> bool" where
  "emits_only f Q = (\<forall>s. \<exists>evs. events (snd (f s)) = events s @ evs \<and> list_all Q evs)"

text \<open>A statement whose completion and whose events other than sleeps do not depend on the
  state it starts from (the number of sleeps depends on \<^verbatim>\<open>RUNNING\<close>).\<close>

definition state_independent :: "stmt \<Rightarrow> bool" where
  "state_independent f =
     (\<exists>c out. \<forall>s. fst (f s) = c
        \<and> (\<exists>evs. events (snd (f s)) = events s @ evs \<and> filter (\<lambda>ev. ev \<noteq> Sleep) evs = out))"

text \<open>The iteration reaches \<^verbatim>\<open>pm = Pymem(PROCESS_NAME)\<close> and the call returns the handle.\<close>

definition attaches :: "environment \<Rightarrow> Pymem \<Rightarrow> bool" where
  "attaches env pm =
     (\<not> print_raises env Header \<and> attach_process env = Inr pm
      \<and> (case find_pid_by_name env of None \<Rightarrow> False | Some pid \<Rightarrow> pid \<noteq> 0))"

text \<open>The result of the voting example.\<close>

definition voting_result :: StabilizedResult where
  "voting_result = \<lparr>winning_address = 0x3008, stabilized_value = 7, agreement_count = 2,
       total_resolved = 3\<rparr>"

text \<open>An environment in which drawing the ghost chart raises in the middle of the cycle and
  closing the handle raises as well.\<close>

definition raising_pm :: Pymem where
  "raising_pm = voting_pm\<lparr>close_process := Some ProcessError\<rparr>"

definition raising_env :: environment where
  "raising_env = (example_env raising_pm)\<lparr>print_raises := (\<lambda>msg. msg = GhostChart 7)\<rparr>"

section \<open>Verified properties\<close>

subsection \<open>Loader\<close>

lemma set_strip_subset: "set (strip s) \<subseteq> set s"
proof -
  have "set (dropWhile is_space (rev (dropWhile is_space s))) \<subseteq> set (rev (dropWhile is_space s))"
    by (meson set_dropWhileD subsetI)
  also have "\<dots> \<subseteq> set s"
    using set_dropWhileD [of _ is_space s] by auto
  finally show ?thesis by (simp add: strip_def)
qed

lemma parse_address_spec_no_plus:
  assumes "CHR ''+'' \<notin> set spec"
  shows "parse_address_spec spec = Inl ValueError"
proof -
  have "set (remove_quotes (strip spec)) \<subseteq> set spec"
    using set_strip_subset [of spec] by (auto simp: remove_quotes_def)
  with assms have "CHR ''+'' \<notin> set (remove_quotes (strip spec))" by blast
  then show ?thesis by (simp add: parse_address_spec_def Let_def)
qed

text \<open>
  Claim C6. \<^verbatim>\<open>parse_address_spec\<close> maps \<^verbatim>\<open>Core+0x1A2B\<close> to the module \<^verbatim>\<open>Core\<close> and the
  offset \<open>0x1A2B\<close>; it maps \<^verbatim>\<open>Core + 1A2B\<close> (no prefix, extra spaces) to the same pair, also
  when the text is wrapped in quote characters and blanks; and for every text without a
  \<^verbatim>\<open>+\<close> it fails. The failure is the \<^verbatim>\<open>ValueError\<close> that unpacking the single piece of
  \<^verbatim>\<open>split\<close> raises, which is the parse error of the specification.
\<close>

theorem parse_address_spec_cases:
  "parse_address_spec ''Core+0x1A2B'' = Inr (''Core'', 0x1A2B)
   \<and> parse_address_spec ''Core + 1A2B'' = Inr (''Core'', 0x1A2B)
   \<and> parse_address_spec (CHR 0x22 # ''  Core + 1A2B '' @ [CHR 0x22]) = Inr (''Core'', 0x1A2B)
   \<and> (CHR ''+'' \<notin> set spec \<longrightarrow> parse_address_spec spec = Inl ValueError)"
proof -
  have a: "parse_address_spec ''Core+0x1A2B'' = Inr (''Core'', 0x1A2B)" by code_simp
  have b: "parse_address_spec ''Core + 1A2B'' = Inr (''Core'', 0x1A2B)" by code_simp
  have c: "parse_address_spec (CHR 0x22 # ''  Core + 1A2B '' @ [CHR 0x22]) = Inr (''Core'', 0x1A2B)"
    by code_simp
  show ?thesis using a b c parse_address_spec_no_plus by blast
qed

theorem parse_address_spec_cases_witness:
  "CHR ''+'' \<notin> set ''Core 1A2B'' \<and> parse_address_spec ''Core 1A2B'' = Inl ValueError"
proof -
  have h: "CHR ''+'' \<notin> set ''Core 1A2B''" by simp
  from parse_address_spec_cases [of "''Core 1A2B''"] h show ?thesis by blast
qed

lemma load_entries_offsets:
  "load_entries es = Inr parsed \<Longrightarrow>
   list_all2 (\<lambda>e d. \<exists>offs. file_offsets e = Inr offs \<and> snd (snd d) = rev offs)
     (filter has_address es) parsed"
proof (induction es arbitrary: parsed)
  case Nil
  then show ?case by simp
next
  case (Cons e es)
  show ?case
  proof (cases "has_address e")
    case False
    with Cons.prems have "load_entries es = Inr parsed"
      by (auto simp: has_address_def split: option.splits sum.splits if_splits)
    with Cons.IH False show ?thesis by simp
  next
    case True
    with Cons.prems obtain m b offs rest where
      p: "parsed = (m, b, rev offs) # rest" and r: "load_entries es = Inr rest"
      and f: "file_offsets e = Inr offs"
      by (auto simp: has_address_def file_offsets_def split: option.splits sum.splits if_splits)
    from Cons.IH [OF r] True p f show ?thesis by simp
  qed
qed

lemma load_example_entry:
  "load_entries [example_entry] = Inr [(''Core'', 0x10, [0x4, 0x8])]"
  unfolding example_entry_def by code_simp

lemma file_offsets_example_entry: "file_offsets example_entry = Inr [0x8, 0x4]"
  unfolding example_entry_def by code_simp

text \<open>
  Claim C5. Whenever loading succeeds, the definitions stored are, in file order, those of
  the entries that have an address, and the offsets stored for each are the reverse of the
  offsets parsed from that entry. The entry with the offsets \<^verbatim>\<open>0x8\<close>, \<^verbatim>\<open>0x4\<close> in file order
  is stored with the offsets \<open>[0x4, 0x8]\<close>.
\<close>

theorem load_entries_reverses_offsets:
  "(load_entries es = Inr parsed \<longrightarrow>
      list_all2 (\<lambda>e d. \<exists>offs. file_offsets e = Inr offs \<and> snd (snd d) = rev offs)
        (filter has_address es) parsed)
   \<and> file_offsets example_entry = Inr [0x8, 0x4]
   \<and> load_entries [example_entry] = Inr [(''Core'', 0x10, [0x4, 0x8])]"
  using load_entries_offsets load_example_entry file_offsets_example_entry by blast

theorem load_entries_reverses_offsets_witness:
  "load_entries [example_entry] = Inr [(''Core'', 0x10, [0x4, 0x8])]
   \<and> list_all2 (\<lambda>e d. \<exists>offs. file_offsets e = Inr offs \<and> snd (snd d) = rev offs)
        (filter has_address [example_entry]) [(''Core'', 0x10 :: int, [0x4, 0x8])]"
  using load_entries_reverses_offsets [of "[example_entry]" "[(''Core'', 0x10, [0x4, 0x8])]"]
  by blast

subsection \<open>Resolver\<close>

lemma follow_spec_chase:
  "(case follow pm addr (butlast offs) of
      Inl e \<Rightarrow> None
    | Inr a \<Rightarrow> Some (a + (if offs \<noteq> [] then last offs else 0))) = spec_chase pm addr offs"
proof (induction pm addr offs rule: spec_chase.induct)
  case (1 pm addr)
  show ?case by simp
next
  case (2 pm addr last_offset)
  show ?case by simp
next
  case (3 pm addr offset v va)
  define rest where "rest = v # va"
  have ne: "rest \<noteq> []" by (simp add: rest_def)
  have bl: "butlast (offset # rest) = offset # butlast rest" using ne by simp
  have la: "last (offset # rest) = last rest" using ne by simp
  show ?case
  proof (cases "read_bytes pm (addr + offset) 8")
    case (Inl e)
    then show ?thesis by (simp add: spec_read_pointer_def)
  next
    case (Inr bs)
    have ih: "(case follow pm (from_bytes_little bs) (butlast rest) of
                 Inl e \<Rightarrow> None
               | Inr a \<Rightarrow> Some (a + (if rest \<noteq> [] then last rest else 0)))
              = spec_chase pm (from_bytes_little bs) rest"
      using 3 [of "from_bytes_little bs"] Inr
      unfolding rest_def spec_read_pointer_def by simp
    have step: "follow pm addr (butlast (offset # rest)) = follow pm (from_bytes_little bs) (butlast rest)"
      unfolding bl using Inr by simp
    have chase: "spec_chase pm addr (offset # rest) = spec_chase pm (from_bytes_little bs) rest"
      using Inr unfolding rest_def by (simp add: spec_read_pointer_def)
    have "(case follow pm addr (butlast (offset # rest)) of
             Inl e \<Rightarrow> None
           | Inr a \<Rightarrow> Some (a + (if offset # rest \<noteq> [] then last (offset # rest) else 0)))
          = (case follow pm (from_bytes_little bs) (butlast rest) of
               Inl e \<Rightarrow> None
             | Inr a \<Rightarrow> Some (a + (if rest \<noteq> [] then last rest else 0)))"
      unfolding step la using ne by simp
    also have "\<dots> = spec_chase pm (from_bytes_little bs) rest" by (rule ih)
    also have "\<dots> = spec_chase pm addr (offset # rest)" by (rule chase [symmetric])
    finally show ?thesis unfolding rest_def .
  qed
qed

lemma resolve_pointer_refines_spec:
  "resolve_pointer pm m b offs = spec_resolve pm m b offs"
proof (cases "module_from_name pm m")
  case (Inl e)
  then show ?thesis by (simp add: resolve_pointer_def resolve_pointer_body_def spec_resolve_def)
next
  case (Inr found)
  show ?thesis
  proof (cases found)
    case None
    with Inr show ?thesis
      by (simp add: resolve_pointer_def resolve_pointer_body_def spec_resolve_def)
  next
    case (Some base)
    show ?thesis
    proof (cases "read_bytes pm (base + b) 8")
      case (Inl e)
      with Inr Some show ?thesis
        by (simp add: resolve_pointer_def resolve_pointer_body_def spec_resolve_def
            spec_read_pointer_def)
    next
      case r: (Inr bs)
      have "resolve_pointer pm m b offs =
        (case follow pm (from_bytes_little bs) (butlast offs) of
           Inl e \<Rightarrow> None
         | Inr a \<Rightarrow> Some (a + (if offs \<noteq> [] then last offs else 0)))"
        using Inr Some r
        by (simp add: resolve_pointer_def resolve_pointer_body_def split: sum.splits)
      also have "\<dots> = spec_chase pm (from_bytes_little bs) offs"
        by (rule follow_spec_chase)
      also have "\<dots> = spec_resolve pm m b offs"
        using Inr Some r by (simp add: spec_resolve_def spec_read_pointer_def)
      finally show ?thesis .
    qed
  qed
qed

lemma follow_reads_length:
  "follow pm addr offs = Inr a \<Longrightarrow> length (follow_reads pm addr offs) = length offs"
  by (induction pm addr offs rule: follow.induct) (auto split: sum.splits)

lemma reads_performed_length:
  assumes "resolve_pointer pm m b offs = Some a"
  shows "length (reads_performed pm m b offs) = 1 + (length offs - 1)"
  using assms
  by (auto simp: resolve_pointer_def resolve_pointer_body_def reads_performed_def
      follow_reads_length split: sum.splits option.splits)

lemma scenario_resolves:
  "resolve_pointer scenario_pm ''Core'' 0x10 [0x4, 0x8] = Some 0x3008"
  by (simp add: resolve_pointer_def resolve_pointer_body_def scenario_pm_def)

lemma scenario_reads:
  "reads_performed scenario_pm ''Core'' 0x10 [0x4, 0x8] = [0x1010, 0x2004]"
  by (simp add: reads_performed_def scenario_pm_def)

lemma follow_fails_iff:
  "(\<exists>e. follow pm addr offs = Inl e) = (\<exists>a \<in> set (follow_reads pm addr offs). isl (read_bytes pm a 8))"
proof (induction pm addr offs rule: follow.induct)
  case (1 pm addr)
  show ?case by simp
next
  case (2 pm addr off offs)
  show ?case
  proof (cases "read_bytes pm (addr + off) 8")
    case (Inl e)
    then show ?thesis by simp
  next
    case (Inr bs)
    with 2 [of bs] show ?thesis by simp
  qed
qed

lemma body_fails_iff:
  "(\<exists>e. resolve_pointer_body pm m b offs = Inl e) =
   ((\<forall>base. module_from_name pm m \<noteq> Inr (Some base))
    \<or> (\<exists>a \<in> set (reads_performed pm m b offs). isl (read_bytes pm a 8)))"
proof (cases "module_from_name pm m")
  case (Inl e)
  then show ?thesis by (simp add: resolve_pointer_body_def)
next
  case (Inr found)
  show ?thesis
  proof (cases found)
    case None
    with Inr show ?thesis by (simp add: resolve_pointer_body_def)
  next
    case (Some base)
    show ?thesis
    proof (cases "read_bytes pm (base + b) 8")
      case (Inl e)
      with Inr Some show ?thesis by (simp add: resolve_pointer_body_def reads_performed_def)
    next
      case r: (Inr bs)
      have "(\<exists>e. resolve_pointer_body pm m b offs = Inl e)
            = (\<exists>e. follow pm (from_bytes_little bs) (butlast offs) = Inl e)"
        using Inr Some r by (auto simp: resolve_pointer_body_def split: sum.splits)
      also have "\<dots> = (\<exists>a \<in> set (follow_reads pm (from_bytes_little bs) (butlast offs)).
                          isl (read_bytes pm a 8))"
        by (rule follow_fails_iff)
      also have "\<dots> = (\<exists>a \<in> set (reads_performed pm m b offs). isl (read_bytes pm a 8))"
        using Inr Some r by (simp add: reads_performed_def)
      finally show ?thesis using Inr Some by simp
    qed
  qed
qed

lemma resolve_none_iff_body_fails:
  "(resolve_pointer pm m b offs = None) = (\<exists>e. resolve_pointer_body pm m b offs = Inl e)"
  by (cases "resolve_pointer_body pm m b offs") (simp_all add: resolve_pointer_def)


lemma resolve_single_offsets:
  assumes "module_from_name pm m = Inr (Some base)" and "read_bytes pm (base + b) 8 = Inr bs"
  shows "resolve_pointer pm m b [] = Some (from_bytes_little bs + 0)"
    and "resolve_pointer pm m b [off] = Some (from_bytes_little bs + off)"
  using assms by (simp_all add: resolve_pointer_def resolve_pointer_body_def)

text \<open>
  Claim C4. \<^verbatim>\<open>resolve_pointer\<close> computes exactly what the specification describes: it
  dereferences the 8-byte little-endian pointer at \<open>module_base + base_offset\<close>, chases
  every offset except the last, and adds the last offset (0 for an empty list) without
  reading again; a successful resolution performs one read for the base and one for each
  offset but the last. In the scenario of the specification the chain with the
  resolution-order offsets \<open>[0x4, 0x8]\<close> reads at \<open>0x1010\<close> and \<open>0x2004\<close> and ends at
  \<open>0x3008\<close>.
\<close>

theorem resolve_pointer_follows_chain:
  "resolve_pointer pm m b offs = spec_resolve pm m b offs
   \<and> (resolve_pointer pm m b offs = Some a \<longrightarrow>
        length (reads_performed pm m b offs) = 1 + (length offs - 1))
   \<and> (module_from_name pm m = Inr (Some base) \<and> read_bytes pm (base + b) 8 = Inr bs \<longrightarrow>
        resolve_pointer pm m b [] = Some (from_bytes_little bs + 0)
        \<and> resolve_pointer pm m b [off] = Some (from_bytes_little bs + off))
   \<and> resolve_pointer scenario_pm ''Core'' 0x10 [0x4, 0x8] = Some 0x3008
   \<and> reads_performed scenario_pm ''Core'' 0x10 [0x4, 0x8] = [0x1010, 0x2004]"
  using resolve_pointer_refines_spec [of pm m b offs] reads_performed_length [of pm m b offs a]
    resolve_single_offsets scenario_resolves scenario_reads
  by blast

theorem resolve_pointer_follows_chain_witness:
  "resolve_pointer scenario_pm ''Core'' 0x10 [0x4, 0x8] = Some 0x3008
   \<and> length (reads_performed scenario_pm ''Core'' 0x10 [0x4, 0x8]) = 2
   \<and> module_from_name scenario_pm ''Core'' = Inr (Some 0x1000)
   \<and> read_bytes scenario_pm (0x1000 + 0x10) 8 = Inr [0x00, 0x20, 0, 0, 0, 0, 0, 0]
   \<and> resolve_pointer scenario_pm ''Core'' 0x10 [] = Some 0x2000
   \<and> resolve_pointer scenario_pm ''Core'' 0x10 [0x4] = Some 0x2004"
proof -
  have h1: "resolve_pointer scenario_pm ''Core'' 0x10 [0x4, 0x8] = Some 0x3008"
    by (simp add: resolve_pointer_def resolve_pointer_body_def scenario_pm_def)
  have h2: "module_from_name scenario_pm ''Core'' = Inr (Some 0x1000)"
    by (simp add: scenario_pm_def)
  have h3: "read_bytes scenario_pm (0x1000 + 0x10) 8 = Inr [0x00, 0x20, 0, 0, 0, 0, 0, 0]"
    by (simp add: scenario_pm_def)
  have v: "from_bytes_little [0x00, 0x20, 0, 0, 0, 0, 0, 0 :: byte] = 0x2000" by simp
  from resolve_pointer_follows_chain [where pm = scenario_pm and m = "''Core''" and b = "0x10"
      and offs = "[0x4, 0x8]" and a = "0x3008" and base = "0x1000"
      and bs = "[0x00, 0x20, 0, 0, 0, 0, 0, 0]" and off = "0x4"] h1 h2 h3 v
  show ?thesis by simp
qed

text \<open>
  Claim C7. Whatever exception the body of \<^verbatim>\<open>resolve_pointer\<close> raises, the function returns
  \<open>None\<close>; it returns \<open>None\<close> exactly when the module lookup gives no base or one of the
  reads it performs raises; and an address is returned only when the whole body completed,
  in which case it is the address of the complete chain, never an intermediate one.
\<close>

theorem resolve_pointer_all_or_nothing:
  "(\<forall>e. resolve_pointer_body pm m b offs = Inl e \<longrightarrow> resolve_pointer pm m b offs = None)
   \<and> ((resolve_pointer pm m b offs = None) =
        ((\<forall>base. module_from_name pm m \<noteq> Inr (Some base))
         \<or> (\<exists>a \<in> set (reads_performed pm m b offs). isl (read_bytes pm a 8))))
   \<and> (resolve_pointer pm m b offs = Some r \<longrightarrow>
        resolve_pointer_body pm m b offs = Inr r \<and> spec_resolve pm m b offs = Some r)"
proof -
  have 1: "\<forall>e. resolve_pointer_body pm m b offs = Inl e \<longrightarrow> resolve_pointer pm m b offs = None"
    by (simp add: resolve_pointer_def)
  have 2: "(resolve_pointer pm m b offs = None) =
        ((\<forall>base. module_from_name pm m \<noteq> Inr (Some base))
         \<or> (\<exists>a \<in> set (reads_performed pm m b offs). isl (read_bytes pm a 8)))"
    using resolve_none_iff_body_fails [of pm m b offs] body_fails_iff [of pm m b offs] by simp
  have 3: "resolve_pointer pm m b offs = Some r \<longrightarrow>
        resolve_pointer_body pm m b offs = Inr r \<and> spec_resolve pm m b offs = Some r"
  proof
    assume s: "resolve_pointer pm m b offs = Some r"
    then have "resolve_pointer_body pm m b offs = Inr r"
      by (cases "resolve_pointer_body pm m b offs") (simp_all add: resolve_pointer_def)
    moreover from s have "spec_resolve pm m b offs = Some r"
      by (simp add: resolve_pointer_refines_spec)
    ultimately show "resolve_pointer_body pm m b offs = Inr r \<and> spec_resolve pm m b offs = Some r"
      by simp
  qed
  from 1 2 3 show ?thesis by blast
qed

theorem resolve_pointer_all_or_nothing_witness:
  "0x3008 \<in> set (reads_performed scenario_pm ''Core'' 0x10 [0x4, 0x8, 0xC])
   \<and> isl (read_bytes scenario_pm 0x3008 8)
   \<and> resolve_pointer scenario_pm ''Core'' 0x10 [0x4, 0x8, 0xC] = None
   \<and> resolve_pointer_body scenario_pm ''Core'' 0x10 [0x4, 0x8, 0xC] = Inl MemoryReadError
   \<and> resolve_pointer scenario_pm ''Core'' 0x10 [0x4, 0x8] = Some 0x3008
   \<and> resolve_pointer_body scenario_pm ''Core'' 0x10 [0x4, 0x8] = Inr 0x3008"
proof -
  have r: "reads_performed scenario_pm ''Core'' 0x10 [0x4, 0x8, 0xC] = [0x1010, 0x2004, 0x3008]"
    by (simp add: reads_performed_def scenario_pm_def)
  have f: "isl (read_bytes scenario_pm 0x3008 8)"
    by (simp add: scenario_pm_def)
  have b: "resolve_pointer_body scenario_pm ''Core'' 0x10 [0x4, 0x8, 0xC] = Inl MemoryReadError"
    by (simp add: resolve_pointer_body_def scenario_pm_def)
  have s: "resolve_pointer scenario_pm ''Core'' 0x10 [0x4, 0x8] = Some 0x3008"
    by (simp add: resolve_pointer_def resolve_pointer_body_def scenario_pm_def)
  from r f have ex: "\<exists>a \<in> set (reads_performed scenario_pm ''Core'' 0x10 [0x4, 0x8, 0xC]).
      isl (read_bytes scenario_pm a 8)" by simp
  from resolve_pointer_all_or_nothing [of scenario_pm "''Core''" "0x10" "[0x4, 0x8, 0xC]"] ex
  have n: "resolve_pointer scenario_pm ''Core'' 0x10 [0x4, 0x8, 0xC] = None" by blast
  from resolve_pointer_all_or_nothing [of scenario_pm "''Core''" "0x10" "[0x4, 0x8]" "0x3008"] s
  have k: "resolve_pointer_body scenario_pm ''Core'' 0x10 [0x4, 0x8] = Inr 0x3008" by blast
  from r f n b s k show ?thesis by simp
qed

subsection \<open>Aggregator\<close>

lemma counter_incr_map:
  "distinct ks \<Longrightarrow>
   counter_incr a (map (\<lambda>k. (k, f k)) ks) =
     (if a \<in> set ks then map (\<lambda>k. (k, if k = a then f k + 1 else f k)) ks
      else map (\<lambda>k. (k, f k)) ks @ [(a, 1)])"
  by (induction ks) auto

lemma Counter_snoc: "Counter (xs @ [a]) = counter_incr a (Counter xs)"
  by (simp add: Counter_def)

lemma Counter_eq:
  "Counter xs = map (\<lambda>k. (k, count_list xs k)) (rev (remdups (rev xs)))"
proof (induction xs rule: rev_induct)
  case Nil
  show ?case by (simp add: Counter_def)
next
  case (snoc a xs)
  let ?K = "rev (remdups (rev xs))"
  have d: "distinct ?K" by simp
  have s: "set ?K = set xs" by simp
  have "Counter (xs @ [a]) = counter_incr a (map (\<lambda>k. (k, count_list xs k)) ?K)"
    by (simp add: Counter_snoc snoc)
  also have "\<dots> = (if a \<in> set xs
      then map (\<lambda>k. (k, if k = a then count_list xs k + 1 else count_list xs k)) ?K
      else map (\<lambda>k. (k, count_list xs k)) ?K @ [(a, 1)])"
    using counter_incr_map [OF d, of a "count_list xs"] s by simp
  also have "\<dots> = map (\<lambda>k. (k, count_list (xs @ [a]) k)) (rev (remdups (rev (xs @ [a]))))"
  proof (cases "a \<in> set xs")
    case True
    then show ?thesis by (auto simp: count_list_append)
  next
    case False
    then have "count_list xs a = 0" by (simp add: count_list_0_iff)
    with False show ?thesis by (auto simp: count_list_append)
  qed
  finally show ?case .
qed

lemma max_by_count_split:
  "\<exists>pre post. best # kvs = pre @ max_by_count best kvs # post
     \<and> (\<forall>kv \<in> set pre. snd kv < snd (max_by_count best kvs))
     \<and> (\<forall>kv \<in> set post. snd kv \<le> snd (max_by_count best kvs))"
proof (induction kvs arbitrary: best)
  case Nil
  have "[best] = [] @ max_by_count best [] # []" by simp
  then show ?case by (metis empty_iff list.set(1))
next
  case (Cons kv kvs)
  show ?case
  proof (cases "snd kv > snd best")
    case True
    define r where "r = max_by_count kv kvs"
    have res: "max_by_count best (kv # kvs) = r" using True by (simp add: r_def)
    from Cons [of kv] obtain pre post where
      sp: "kv # kvs = pre @ r # post"
      and lt: "\<forall>x \<in> set pre. snd x < snd r"
      and le: "\<forall>x \<in> set post. snd x \<le> snd r" unfolding r_def by blast
    have "snd kv \<le> snd r"
    proof (cases pre)
      case Nil
      with sp have "kv = r" by simp
      then show ?thesis by simp
    next
      case (Cons p ps)
      with sp have "kv \<in> set pre" by simp
      with lt show ?thesis by (simp add: less_imp_le)
    qed
    with True have b: "snd best < snd r" by simp
    have 1: "best # kv # kvs = (best # pre) @ r # post" using sp by simp
    have 2: "\<forall>x \<in> set (best # pre). snd x < snd r" using lt b by simp
    show ?thesis unfolding res using 1 2 le by blast
  next
    case False
    define r where "r = max_by_count best kvs"
    have res: "max_by_count best (kv # kvs) = r" using False by (simp add: r_def)
    from Cons [of best] obtain pre post where
      sp: "best # kvs = pre @ r # post"
      and lt: "\<forall>x \<in> set pre. snd x < snd r"
      and le: "\<forall>x \<in> set post. snd x \<le> snd r" unfolding r_def by blast
    show ?thesis
    proof (cases pre)
      case Nil
      with sp have b: "r = best" and p: "post = kvs" by simp_all
      have 1: "best # kv # kvs = [] @ r # (kv # kvs)" using b by simp
      have 2: "\<forall>x \<in> set (kv # kvs). snd x \<le> snd r" using le False b p by auto
      have 3: "\<forall>x \<in> set ([] :: (int \<times> nat) list). snd x < snd r" by simp
      show ?thesis unfolding res using 1 2 3 by blast
    next
      case (Cons p ps)
      with sp have pb: "p = best" and ks: "kvs = ps @ r # post" by simp_all
      from lt Cons pb have bl: "snd best < snd r" by simp
      have 1: "best # kv # kvs = (best # kv # ps) @ r # post" using ks by simp
      have 2: "\<forall>x \<in> set (best # kv # ps). snd x < snd r"
        using lt Cons pb bl False by auto
      show ?thesis unfolding res using 1 2 le by blast
    qed
  qed
qed

lemma first_index_append_in:
  "y \<in> set xs \<Longrightarrow> first_index (xs @ ys) y = first_index xs y"
  by (simp add: first_index_def takeWhile_append1 [where P = "\<lambda>x. x \<noteq> y"]) 

lemma first_index_lt: "y \<in> set xs \<Longrightarrow> first_index xs y < length xs"
  unfolding first_index_def by (induction xs) auto

lemma first_index_new: "y \<notin> set xs \<Longrightarrow> first_index (xs @ [y]) y = length xs"
  unfolding first_index_def by (induction xs) auto

lemma keys_order_first_index:
  "rev (remdups (rev xs)) = K1 @ w # K2 \<Longrightarrow> a \<in> set K2 \<Longrightarrow>
   first_index xs w < first_index xs a"
proof (induction xs arbitrary: K2 rule: rev_induct)
  case Nil
  then show ?case by simp
next
  case (snoc x xs)
  let ?K = "rev (remdups (rev xs))"
  show ?case
  proof (cases "x \<in> set xs")
    case True
    then have k: "rev (remdups (rev (xs @ [x]))) = ?K" by simp
    with snoc.prems have sp: "?K = K1 @ w # K2" by simp
    have "set ?K = set xs" by simp
    with sp snoc.prems(2) have "w \<in> set xs" "a \<in> set xs" by (metis in_set_conv_decomp, metis Un_iff list.set_intros(2) set_append)
    with snoc.IH [OF sp snoc.prems(2)] show ?thesis by (simp add: first_index_append_in)
  next
    case False
    then have k: "rev (remdups (rev (xs @ [x]))) = ?K @ [x]" by simp
    with snoc.prems(1) have sp: "?K @ [x] = K1 @ w # K2" by simp
    from snoc.prems(2) have "K2 \<noteq> []" by auto
    then obtain K2' l where K2: "K2 = K2' @ [l]" by (metis rev_exhaust)
    with sp have l: "l = x" and sp': "?K = K1 @ w # K2'" by simp_all
    have "set ?K = set xs" by simp
    with sp' have w: "w \<in> set xs" by (metis in_set_conv_decomp)
    show ?thesis
    proof (cases "a = x")
      case True
      have "first_index (xs @ [x]) w = first_index xs w" using w by (rule first_index_append_in)
      also have "\<dots> < length xs" using w by (rule first_index_lt)
      also have "\<dots> = first_index (xs @ [x]) x" using False by (simp add: first_index_new)
      finally show ?thesis using True by simp
    next
      case na: False
      with snoc.prems(2) K2 l have a2: "a \<in> set K2'" by simp
      with sp' \<open>set ?K = set xs\<close> have "a \<in> set xs"
        by (metis Un_iff list.set_intros(2) set_append)
      with snoc.IH [OF sp' a2] w show ?thesis by (simp add: first_index_append_in)
    qed
  qed
qed

lemma vote_winner:
  assumes ne: "addrs \<noteq> []"
  shows "\<exists>w. vote addrs = [(w, count_list addrs w)] \<and> w \<in> set addrs
     \<and> (\<forall>a \<in> set addrs. count_list addrs a \<le> count_list addrs w)
     \<and> (\<forall>a \<in> set addrs. a \<noteq> w \<and> count_list addrs a = count_list addrs w \<longrightarrow>
           first_index addrs w < first_index addrs a)"
proof -
  define K where "K = rev (remdups (rev addrs))"
  define g where "g = (\<lambda>k. (k, count_list addrs k))"
  have c: "Counter addrs = map g K" unfolding K_def g_def by (rule Counter_eq)
  have sK: "set K = set addrs" unfolding K_def by simp
  with ne have "K \<noteq> []" by auto
  then obtain k0 ks where K: "K = k0 # ks" by (cases K) auto
  define r where "r = max_by_count (g k0) (map g ks)"
  have v: "vote addrs = [r]"
    unfolding vote_def c K r_def by (simp add: most_common1_def)
  from max_by_count_split [of "g k0" "map g ks"] obtain pre post where
    sp: "g k0 # map g ks = pre @ r # post"
    and lt: "\<forall>x \<in> set pre. snd x < snd r"
    and le: "\<forall>x \<in> set post. snd x \<le> snd r" unfolding r_def by blast
  from sp K have "map g K = pre @ r # post" by simp
  then obtain K1 K' where K1: "K = K1 @ K'" and pre: "pre = map g K1" and rp: "r # post = map g K'"
    by (auto simp: map_eq_append_conv)
  from rp obtain w K2 where K': "K' = w # K2" and r: "r = g w" and post: "post = map g K2"
    by (cases K') auto
  have dec: "rev (remdups (rev addrs)) = K1 @ w # K2" using K1 K' unfolding K_def by simp
  have w: "w \<in> set addrs" using sK K1 K' by auto
  have cw: "snd r = count_list addrs w" using r by (simp add: g_def)
  have lt': "\<forall>a \<in> set K1. count_list addrs a < count_list addrs w"
    using lt pre cw by (simp add: g_def)
  have le': "\<forall>a \<in> set K2. count_list addrs a \<le> count_list addrs w"
    using le post cw by (simp add: g_def)
  have all: "\<forall>a \<in> set addrs. count_list addrs a \<le> count_list addrs w"
  proof
    fix a assume "a \<in> set addrs"
    with sK K1 K' have "a \<in> set K1 \<or> a = w \<or> a \<in> set K2" by auto
    with lt' le' show "count_list addrs a \<le> count_list addrs w" by (auto simp: less_imp_le)
  qed
  have tie: "\<forall>a \<in> set addrs. a \<noteq> w \<and> count_list addrs a = count_list addrs w \<longrightarrow>
           first_index addrs w < first_index addrs a"
  proof (intro ballI impI)
    fix a assume a: "a \<in> set addrs" and h: "a \<noteq> w \<and> count_list addrs a = count_list addrs w"
    from a sK K1 K' have "a \<in> set K1 \<or> a = w \<or> a \<in> set K2" by auto
    with h lt' have "a \<in> set K2" by auto
    with dec show "first_index addrs w < first_index addrs a" by (rule keys_order_first_index)
  qed
  have "vote addrs = [(w, count_list addrs w)]" using v r by (simp add: g_def)
  with w all tie show ?thesis by blast
qed

lemma vote_3008: "vote [0x3008, 0x3008, 0x4000] = [(0x3008, 2)]"
  by (simp add: vote_def Counter_def most_common1_def)


lemma stabilize_result:
  assumes "stabilize pm entries = Stabilized r"
  shows "vote (map fst (collect_results pm entries)) = [(winning_address r, agreement_count r)]
     \<and> total_resolved r = length (collect_results pm entries)
     \<and> read_int32 pm (winning_address r) = Inr (stabilized_value r)"
proof -
  let ?as = "map fst (collect_results pm entries)"
  from assms have ne: "collect_results pm entries \<noteq> []"
    by (auto simp: stabilize_def Let_def)
  then have "?as \<noteq> []" by simp
  from vote_winner [OF this] obtain w where v: "vote ?as = [(w, count_list ?as w)]" by blast
  from assms ne v show ?thesis
    by (auto simp: stabilize_def Let_def split: sum.splits)
qed

lemma collect_results_length:
  "length (collect_results pm entries) = length (filter (tallied pm) entries)"
proof (induction entries)
  case Nil
  show ?case by simp
next
  case (Cons e entries)
  obtain m b offs where e: "e = (m, b, offs)" by (cases e) auto
  show ?case using Cons unfolding e
    by (simp add: tallied_def split: option.splits sum.splits)
qed

lemma collect_results_member:
  "(a, v) \<in> set (collect_results pm entries) \<Longrightarrow> a \<noteq> 0 \<and> read_int32 pm a = Inr v"
proof (induction entries)
  case Nil
  then show ?case by simp
next
  case (Cons e entries)
  obtain m b offs where e: "e = (m, b, offs)" by (cases e) auto
  from Cons show ?case unfolding e
    by (auto split: option.splits sum.splits if_splits)
qed

lemma collect_results_skip:
  assumes "\<not> tallied pm (m, b, offs)"
  shows "collect_results pm ((m, b, offs) # entries) = collect_results pm entries"
  using assms by (auto simp: tallied_def split: option.splits sum.splits)

lemma collect_results_empty_iff:
  "(collect_results pm entries = []) = (filter (tallied pm) entries = [])"
  using collect_results_length [of pm entries] by (metis length_0_conv)

lemma unreadable_addresses_not_tallied:
  assumes "isl (read_int32 pm a)"
  shows "a \<notin> set (map fst (collect_results pm entries))"
proof
  assume "a \<in> set (map fst (collect_results pm entries))"
  then obtain v where "(a, v) \<in> set (collect_results pm entries)" by auto
  then have "read_int32 pm a = Inr v" by (simp add: collect_results_member)
  with assms show False by simp
qed

lemma null_address_not_tallied: "0 \<notin> set (map fst (collect_results pm entries))"
proof
  assume "0 \<in> set (map fst (collect_results pm entries))"
  then obtain v where "(0, v) \<in> set (collect_results pm entries)" by auto
  then show False using collect_results_member by blast
qed

lemma stabilize_cong:
  "collect_results pm es = collect_results pm es' \<Longrightarrow> stabilize pm es = stabilize pm es'"
  by (simp add: stabilize_def)

lemma voting_collect:
  "collect_results voting_pm voting_entries = [(0x3008, 7), (0x3008, 7), (0x4000, 9)]"
  by (simp add: voting_entries_def voting_pm_def resolve_pointer_def resolve_pointer_body_def
      read_int32_def unpack_i32_def)

lemma voting_stabilize:
  "stabilize voting_pm voting_entries =
     Stabilized \<lparr>winning_address = 0x3008, stabilized_value = 7, agreement_count = 2,
       total_resolved = 3\<rparr>"
  using vote_3008
  by (simp add: stabilize_def voting_collect)
     (simp add: voting_pm_def read_int32_def unpack_i32_def)

lemma null_entry_resolves: "resolve_pointer voting_pm ''Core'' 0x28 [] = Some 0"
  by (simp add: voting_pm_def resolve_pointer_def resolve_pointer_body_def)

lemma unreadable_entry_resolves: "resolve_pointer voting_pm ''Core'' 0x10 [0x4, 0x10] = Some 0x3010"
  by (simp add: voting_pm_def resolve_pointer_def resolve_pointer_body_def)

lemma unreadable_entry_read: "read_int32 voting_pm 0x3010 = Inl MemoryReadError"
  by (simp add: voting_pm_def read_int32_def)



lemma null_entry_untallied:
  assumes "resolve_pointer pm m b offs = Some 0"
  shows "\<not> tallied pm (m, b, offs)"
  using assms by (simp add: tallied_def)

lemma null_entry_collect:
  assumes "resolve_pointer pm m b offs = Some 0"
  shows "collect_results pm ((m, b, offs) # entries) = collect_results pm entries"
  using null_entry_untallied [OF assms] by (rule collect_results_skip)

lemma null_entry_stabilize_eq:
  assumes "resolve_pointer pm m b offs = Some 0"
  shows "stabilize pm ((m, b, offs) # entries) = stabilize pm entries"
  using null_entry_collect [OF assms] by (rule stabilize_cong)

lemma null_entry_stabilize:
  "stabilize voting_pm (null_entry # voting_entries) =
     Stabilized \<lparr>winning_address = 0x3008, stabilized_value = 7, agreement_count = 2,
       total_resolved = 3\<rparr>"
  unfolding null_entry_def
  using null_entry_stabilize_eq [OF null_entry_resolves] voting_stabilize
  by simp

text \<open>
  Claim C10. A chain that resolves to the address 0 is treated as unresolved by the
  aggregator (\<^verbatim>\<open>if addr:\<close> is false for 0): the entry is not tallied, and the list of
  results, hence the vote, the total and the result, are what they are without the entry;
  0 is never among the tallied addresses. In the example image the chain at \<open>0x28\<close>
  resolves to 0 and the result still counts 3 entries.
\<close>

theorem null_address_excluded_from_vote:
  "(resolve_pointer pm m b offs = Some 0 \<longrightarrow>
      \<not> tallied pm (m, b, offs)
      \<and> collect_results pm ((m, b, offs) # entries) = collect_results pm entries
      \<and> stabilize pm ((m, b, offs) # entries) = stabilize pm entries)
   \<and> 0 \<notin> set (map fst (collect_results pm entries))
   \<and> resolve_pointer voting_pm ''Core'' 0x28 [] = Some 0
   \<and> stabilize voting_pm (null_entry # voting_entries) =
        Stabilized \<lparr>winning_address = 0x3008, stabilized_value = 7, agreement_count = 2,
          total_resolved = 3\<rparr>"
  using null_entry_untallied [of pm m b offs] null_entry_collect [of pm m b offs entries]
    null_entry_stabilize_eq [of pm m b offs entries] null_address_not_tallied [of pm entries]
    null_entry_resolves null_entry_stabilize
  by blast

theorem null_address_excluded_from_vote_witness:
  "resolve_pointer voting_pm ''Core'' 0x28 [] = Some 0
   \<and> \<not> tallied voting_pm (''Core'', 0x28, [])
   \<and> collect_results voting_pm ((''Core'', 0x28, []) # voting_entries)
       = collect_results voting_pm voting_entries
   \<and> stabilize voting_pm ((''Core'', 0x28, []) # voting_entries)
       = stabilize voting_pm voting_entries"
proof -
  note t = null_address_excluded_from_vote [of voting_pm "''Core''" "0x28" "[]" voting_entries]
  from t have h: "resolve_pointer voting_pm ''Core'' 0x28 [] = Some 0" by blast
  with t show ?thesis by blast
qed

subsection \<open>Poll loop\<close>

lemma emits_onlyI:
  "(\<And>s. \<exists>evs. events (snd (f s)) = events s @ evs \<and> list_all Q evs) \<Longrightarrow> emits_only f Q"
  by (simp add: emits_only_def)

lemma emits_onlyD:
  "emits_only f Q \<Longrightarrow> \<exists>evs. events (snd (f s)) = events s @ evs \<and> list_all Q evs"
  by (simp add: emits_only_def)

lemma emits_only_seq:
  assumes f: "emits_only f Q" and g: "emits_only g Q"
  shows "emits_only (seq f g) Q"
proof (rule emits_onlyI)
  fix s
  obtain c s' where fs: "f s = (c, s')" by (cases "f s") auto
  from emits_onlyD [OF f, of s] fs obtain xs where xs: "events s' = events s @ xs" "list_all Q xs"
    by auto
  show "\<exists>evs. events (snd (seq f g s)) = events s @ evs \<and> list_all Q evs"
  proof (cases "c = Normal")
    case True
    from emits_onlyD [OF g, of s'] obtain ys where
      ys: "events (snd (g s')) = events s' @ ys" "list_all Q ys" by blast
    have "seq f g s = g s'" using fs True by (simp add: seq_def)
    then have "events (snd (seq f g s)) = events s @ (xs @ ys)" using xs ys by simp
    moreover have "list_all Q (xs @ ys)" using xs ys by simp
    ultimately show ?thesis by blast
  next
    case False
    then have "seq f g s = (c, s')" using fs by (cases c) (simp_all add: seq_def)
    with xs show ?thesis by auto
  qed
qed

lemma emits_only_try_finally:
  assumes f: "emits_only f Q" and g: "emits_only g Q"
  shows "emits_only (try_finally f g) Q"
proof (rule emits_onlyI)
  fix s
  obtain c s' where fs: "f s = (c, s')" by (cases "f s") auto
  from emits_onlyD [OF f, of s] fs obtain xs where xs: "events s' = events s @ xs" "list_all Q xs"
    by auto
  from emits_onlyD [OF g, of s'] obtain ys where
    ys: "events (snd (g s')) = events s' @ ys" "list_all Q ys" by blast
  have "snd (try_finally f g s) = snd (g s')"
    using fs by (simp add: try_finally_def split: prod.splits completion.splits)
  then have "events (snd (try_finally f g s)) = events s @ (xs @ ys)" using xs ys by simp
  moreover have "list_all Q (xs @ ys)" using xs ys by simp
  ultimately show "\<exists>evs. events (snd (try_finally f g s)) = events s @ evs \<and> list_all Q evs"
    by blast
qed

lemma emits_only_emit: "Q ev \<Longrightarrow> emits_only (emit ev) Q"
  by (rule emits_onlyI) (simp add: emit_def)

lemma emits_only_print: "Q (Print msg) \<Longrightarrow> emits_only (print_msg env msg) Q"
proof (rule emits_onlyI)
  fix s assume q: "Q (Print msg)"
  show "\<exists>evs. events (snd (print_msg env msg s)) = events s @ evs \<and> list_all Q evs"
  proof (cases "print_raises env msg")
    case True
    then have "events (snd (print_msg env msg s)) = events s @ []" by (simp add: print_msg_def)
    moreover have "list_all Q []" by simp
    ultimately show ?thesis by blast
  next
    case False
    then have "events (snd (print_msg env msg s)) = events s @ [Print msg]"
      by (simp add: print_msg_def)
    moreover have "list_all Q [Print msg]" using q by simp
    ultimately show ?thesis by blast
  qed
qed

lemma emits_only_continue: "emits_only continue_stmt Q"
proof (rule emits_onlyI)
  fix s
  have "events (snd (continue_stmt s)) = events s @ []" by (simp add: continue_stmt_def)
  moreover have "list_all Q []" by simp
  ultimately show "\<exists>evs. events (snd (continue_stmt s)) = events s @ evs \<and> list_all Q evs"
    by blast
qed

lemma emits_only_raise: "emits_only (\<lambda>s. (Raise e, s)) Q"
proof (rule emits_onlyI)
  fix s :: loop_state
  have "events (snd (Raise e, s)) = events s @ []" by simp
  moreover have "list_all Q []" by simp
  ultimately show "\<exists>evs. events (snd (Raise e, s)) = events s @ evs \<and> list_all Q evs"
    by blast
qed

lemma wait_ticks_events:
  "\<exists>k. events (wait_ticks env n s) = events s @ replicate k Sleep"
proof (induction n arbitrary: s)
  case 0
  have "events (wait_ticks env 0 s) = events s @ replicate 0 Sleep" by simp
  then show ?case by blast
next
  case (Suc n)
  show ?case
  proof (cases "RUNNING env (ticks s)")
    case False
    then have "events (wait_ticks env (Suc n) s) = events s @ replicate 0 Sleep" by simp
    then show ?thesis by blast
  next
    case True
    let ?s = "s\<lparr>events := events s @ [Sleep], ticks := Suc (ticks s)\<rparr>"
    from Suc [of ?s] obtain k where "events (wait_ticks env n ?s) = events ?s @ replicate k Sleep"
      by blast
    with True have "events (wait_ticks env (Suc n) s) = events s @ replicate (Suc k) Sleep"
      by (simp add: replicate_append_same)
    then show ?thesis by blast
  qed
qed

lemma emits_only_wait: "Q Sleep \<Longrightarrow> emits_only (refresh_wait env) Q"
proof (rule emits_onlyI)
  fix s assume q: "Q Sleep"
  from wait_ticks_events obtain k where
    "events (wait_ticks env (nat (max 1 (REFRESH_INTERVAL env))) s) = events s @ replicate k Sleep"
    by blast
  then have "events (snd (refresh_wait env s)) = events s @ replicate k Sleep"
    by (simp add: refresh_wait_def)
  moreover have "list_all Q (replicate k Sleep)" using q by (simp add: list_all_iff)
  ultimately show "\<exists>evs. events (snd (refresh_wait env s)) = events s @ evs \<and> list_all Q evs"
    by blast
qed

lemma emits_only_failure_path:
  assumes "Q (Print msg)" and "Q Sleep"
  shows "emits_only (seq (print_msg env msg) (seq (refresh_wait env) continue_stmt)) Q"
  using assms by (intro emits_only_seq emits_only_print emits_only_wait emits_only_continue)

lemma emits_only_cycle_body:
  assumes s: "Q Sleep" and p: "\<And>msg. (\<forall>r. msg \<noteq> ValueLine r) \<Longrightarrow> Q (Print msg)"
    and v: "\<And>r. stabilize pm entries = Stabilized r \<Longrightarrow> Q (Print (ValueLine r))"
  shows "emits_only (cycle_body env pm entries) Q"
proof (cases "stabilize pm entries")
  case NoValidPointers
  then show ?thesis unfolding cycle_body_def
    by (simp add: emits_only_failure_path s p)
next
  case MemoryReadFailed
  then show ?thesis unfolding cycle_body_def
    by (simp add: emits_only_failure_path s p)
next
  case (Stabilized r)
  have "emits_only (seq (print_msg env (ValueLine r))
            (seq (print_msg env (GhostChart (stabilized_value r)))
              (seq (print_msg env (EvidenceChart (stabilized_value r)))
                (seq (print_msg env Refreshing) (refresh_wait env))))) Q"
    using s p v [OF Stabilized]
    by (intro emits_only_seq emits_only_print emits_only_wait) simp_all
  with Stabilized show ?thesis unfolding cycle_body_def by simp
next
  case (Raised e)
  then show ?thesis unfolding cycle_body_def by (simp add: emits_only_raise)
qed

lemma new_events_eq:
  "events (snd (poll_cycle env entries s)) = events s @ evs \<Longrightarrow> new_events env entries s = evs"
  by (simp add: new_events_def)

lemma poll_cycle_attached:
  assumes "attaches env pm"
  shows "\<exists>mid. events (snd (poll_cycle env entries s))
            = events s @ [ClearScreen, Print Header, Attach] @ mid
                @ [CloseProcess (close_process pm = None)]
          \<and> quiet mid"
proof -
  from assms obtain pid where pid: "find_pid_by_name env = Some pid" "pid \<noteq> 0"
    and att: "attach_process env = Inr pm" and hdr: "\<not> print_raises env Header"
    by (auto simp: attaches_def split: option.splits)
  define s3 where "s3 = s\<lparr>events := events s @ [ClearScreen, Print Header, Attach]\<rparr>"
  have "emits_only (cycle_body env pm entries) (\<lambda>ev. \<not> is_handle_event ev)"
    by (rule emits_only_cycle_body) (simp_all add: is_handle_event_def)
  from emits_onlyD [OF this, of s3] obtain mid where
    mid: "events (snd (cycle_body env pm entries s3)) = events s3 @ mid"
    and q: "list_all (\<lambda>ev. \<not> is_handle_event ev) mid" by blast
  obtain c s4 where b: "cycle_body env pm entries s3 = (c, s4)"
    by (cases "cycle_body env pm entries s3") auto
  have "poll_cycle env entries s
        = try_finally (cycle_body env pm entries) (close_handle pm) s3"
    using pid att hdr
    by (simp add: poll_cycle_def seq_def emit_def print_msg_def s3_def)
  also have "\<dots> = (c, s4\<lparr>events := events s4 @ [CloseProcess (close_process pm = None)]\<rparr>)"
    using b by (simp add: try_finally_def close_handle_def emit_def)
  finally have "events (snd (poll_cycle env entries s))
      = events s4 @ [CloseProcess (close_process pm = None)]" by simp
  also have "events s4 = events s3 @ mid" using mid b by simp
  finally have "events (snd (poll_cycle env entries s))
            = events s @ [ClearScreen, Print Header, Attach] @ mid
                @ [CloseProcess (close_process pm = None)]"
    by (simp add: s3_def)
  with q show ?thesis unfolding quiet_def by blast
qed

lemma poll_cycle_not_attached:
  assumes "\<forall>pm. \<not> attaches env pm"
  shows "emits_only (poll_cycle env entries) (\<lambda>ev. \<not> is_handle_event ev)"
proof -
  let ?Q = "\<lambda>ev. \<not> is_handle_event ev"
  have fail: "\<And>msg. emits_only (seq (print_msg env msg) (seq (refresh_wait env) continue_stmt)) ?Q"
    by (rule emits_only_failure_path) (simp_all add: is_handle_event_def)
  have c: "emits_only (emit ClearScreen) ?Q"
    by (rule emits_only_emit) (simp add: is_handle_event_def)
  show ?thesis
  proof (cases "print_raises env Header")
    case True
    have "\<And>rest. seq (emit ClearScreen) (seq (print_msg env Header) rest)
        = seq (emit ClearScreen) (print_msg env Header)"
      using True by (auto simp: seq_def emit_def print_msg_def fun_eq_iff)
    moreover have "emits_only (seq (emit ClearScreen) (print_msg env Header)) ?Q"
      by (intro emits_only_seq c emits_only_print) (simp add: is_handle_event_def)
    ultimately show ?thesis unfolding poll_cycle_def by simp
  next
    case False
    have h: "emits_only (print_msg env Header) ?Q"
      by (rule emits_only_print) (simp add: is_handle_event_def)
    have "emits_only (case find_pid_by_name env of
            None \<Rightarrow> seq (print_msg env GameNotRunning) (seq (refresh_wait env) continue_stmt)
          | Some pid \<Rightarrow>
              if pid = 0 then
                seq (print_msg env GameNotRunning) (seq (refresh_wait env) continue_stmt)
              else
                (case attach_process env of
                   Inl e \<Rightarrow> seq (print_msg env CouldNotAttach) (seq (refresh_wait env) continue_stmt)
                 | Inr pm \<Rightarrow>
                     seq (emit Attach) (try_finally (cycle_body env pm entries) (close_handle pm)))) ?Q"
      using assms False fail
      by (auto simp: attaches_def split: option.splits sum.splits)
    with c h show ?thesis unfolding poll_cycle_def by (intro emits_only_seq)
  qed
qed

lemma held_after_quiet: "quiet evs \<Longrightarrow> held_after h evs = h"
  unfolding quiet_def
  by (induction h evs rule: held_after.induct) (simp_all add: is_handle_event_def)

lemma held_after_append: "held_after h (xs @ ys) = held_after (held_after h xs) ys"
  by (induction h xs rule: held_after.induct) simp_all

lemma sleeps_while_held_append:
  "sleeps_while_held h (xs @ ys)
     = (sleeps_while_held h xs \<or> sleeps_while_held (held_after h xs) ys)"
  by (induction h xs rule: sleeps_while_held.induct) auto

lemma sleeps_while_held_quiet:
  "quiet evs \<Longrightarrow> sleeps_while_held h evs = (h \<and> Sleep \<in> set evs)"
  unfolding quiet_def
  by (induction h evs rule: sleeps_while_held.induct) (auto simp: is_handle_event_def)

lemma quiet_no_attach: "quiet evs \<Longrightarrow> Attach \<notin> set evs"
  unfolding quiet_def by (auto simp: list_all_iff is_handle_event_def)

lemma attaches_unique: "attaches env pm \<Longrightarrow> attaches env pm' \<Longrightarrow> pm' = pm"
  by (simp add: attaches_def)

lemma cycle_releases_handle: "\<not> held_after False (new_events env entries s)"
proof (cases "\<exists>pm. attaches env pm")
  case True
  then obtain pm where "attaches env pm" by blast
  from poll_cycle_attached [OF this, of entries s] obtain mid where
    "events (snd (poll_cycle env entries s))
       = events s @ [ClearScreen, Print Header, Attach] @ mid
           @ [CloseProcess (close_process pm = None)]" by blast
  then have "new_events env entries s
       = ([ClearScreen, Print Header, Attach] @ mid) @ [CloseProcess (close_process pm = None)]"
    by (simp add: new_events_eq)
  then show ?thesis by (simp only: held_after_append) simp
next
  case False
  then have "emits_only (poll_cycle env entries) (\<lambda>ev. \<not> is_handle_event ev)"
    by (simp add: poll_cycle_not_attached)
  from emits_onlyD [OF this, of s] obtain evs where
    "events (snd (poll_cycle env entries s)) = events s @ evs" and "quiet evs"
    unfolding quiet_def by blast
  then show ?thesis by (simp add: new_events_eq held_after_quiet)
qed

lemma attached_cycle_sleeps_while_held:
  assumes "Attach \<in> set (new_events env entries s)"
  shows "sleeps_while_held False (new_events env entries s)
           = (Sleep \<in> set (new_events env entries s))"
proof (cases "\<exists>pm. attaches env pm")
  case True
  then obtain pm where "attaches env pm" by blast
  from poll_cycle_attached [OF this, of entries s] obtain mid where
    e: "events (snd (poll_cycle env entries s))
       = events s @ [ClearScreen, Print Header, Attach] @ mid
           @ [CloseProcess (close_process pm = None)]" and q: "quiet mid" by blast
  then have n: "new_events env entries s
       = [ClearScreen, Print Header, Attach] @ (mid @ [CloseProcess (close_process pm = None)])"
    by (simp add: new_events_eq)
  have "sleeps_while_held False (new_events env entries s)
        = sleeps_while_held True (mid @ [CloseProcess (close_process pm = None)])"
    unfolding n by simp
  also have "\<dots> = (Sleep \<in> set mid)"
    using q by (simp add: sleeps_while_held_append sleeps_while_held_quiet)
  also have "\<dots> = (Sleep \<in> set (new_events env entries s))" unfolding n by simp
  finally show ?thesis .
next
  case False
  then have "emits_only (poll_cycle env entries) (\<lambda>ev. \<not> is_handle_event ev)"
    by (simp add: poll_cycle_not_attached)
  from emits_onlyD [OF this, of s] obtain evs where
    "events (snd (poll_cycle env entries s)) = events s @ evs" and "quiet evs"
    unfolding quiet_def by blast
  then have "Attach \<notin> set (new_events env entries s)"
    by (simp add: new_events_eq quiet_no_attach)
  with assms show ?thesis by simp
qed

lemma new_events_attached:
  assumes "attaches env pm"
  shows "\<exists>mid. new_events env entries s
            = [ClearScreen, Print Header, Attach] @ mid @ [CloseProcess (close_process pm = None)]
          \<and> quiet mid"
proof -
  from poll_cycle_attached [OF assms, of entries s] obtain mid where
    "events (snd (poll_cycle env entries s))
       = events s @ [ClearScreen, Print Header, Attach] @ mid
           @ [CloseProcess (close_process pm = None)]" and "quiet mid" by blast
  then show ?thesis by (metis new_events_eq)
qed

lemma voting_cycle_events:
  "new_events (example_env voting_pm) voting_entries initial_state =
     [ClearScreen, Print Header, Attach, Print (ValueLine voting_result), Print (GhostChart 7),
      Print (EvidenceChart 7), Print Refreshing, Sleep, Sleep, CloseProcess True]"
  using voting_stabilize
  by (simp add: new_events_def poll_cycle_def cycle_body_def example_env_def initial_state_def
      seq_def emit_def print_msg_def try_finally_def close_handle_def refresh_wait_def
      continue_stmt_def voting_result_def eval_nat_numeral)
     (simp add: voting_pm_def)

lemma follow_same_memory:
  assumes "read_bytes pm1 = read_bytes pm2"
  shows "follow pm1 addr offs = follow pm2 addr offs"
proof (induction offs arbitrary: addr)
  case Nil
  show ?case by simp
next
  case (Cons off offs)
  show ?case
  proof (cases "read_bytes pm2 (addr + off) 8")
    case (Inl e)
    with assms show ?thesis by simp
  next
    case (Inr bs)
    with assms Cons [of "from_bytes_little bs"] show ?thesis by simp
  qed
qed

lemma resolve_pointer_same_memory:
  assumes "module_from_name pm1 = module_from_name pm2" and "read_bytes pm1 = read_bytes pm2"
  shows "resolve_pointer pm1 m b offs = resolve_pointer pm2 m b offs"
  unfolding resolve_pointer_def resolve_pointer_body_def assms follow_same_memory [OF assms(2)]
  by (rule refl)

lemma read_int32_same_memory:
  assumes "read_bytes pm1 = read_bytes pm2"
  shows "read_int32 pm1 a = read_int32 pm2 a"
  using assms by (simp add: read_int32_def)

lemma collect_results_same_memory:
  assumes "module_from_name pm1 = module_from_name pm2" and "read_bytes pm1 = read_bytes pm2"
  shows "collect_results pm1 entries = collect_results pm2 entries"
proof (induction entries)
  case Nil
  show ?case by simp
next
  case (Cons e entries)
  obtain m b offs where e: "e = (m, b, offs)" by (cases e) auto
  show ?case unfolding e
    using Cons resolve_pointer_same_memory [OF assms, of m b offs]
      read_int32_same_memory [OF assms(2)]
    by (simp split: option.splits sum.splits)
qed

lemma stabilize_same_memory:
  assumes "module_from_name pm1 = module_from_name pm2" and "read_bytes pm1 = read_bytes pm2"
  shows "stabilize pm1 entries = stabilize pm2 entries"
proof -
  have c: "collect_results pm1 entries = collect_results pm2 entries"
    using assms by (rule collect_results_same_memory)
  have r: "\<And>a. read_int32 pm1 a = read_int32 pm2 a"
    using assms(2) by (rule read_int32_same_memory)
  show ?thesis unfolding stabilize_def c r by (rule refl)
qed

lemma raising_stabilize: "stabilize raising_pm voting_entries = Stabilized voting_result"
proof -
  have "stabilize raising_pm voting_entries = stabilize voting_pm voting_entries"
    by (rule stabilize_same_memory) (simp_all add: raising_pm_def)
  then show ?thesis by (simp add: voting_stabilize voting_result_def)
qed

lemma raising_cycle:
  "poll_cycle raising_env voting_entries initial_state =
     (Raise OSError,
      \<lparr>events = [ClearScreen, Print Header, Attach, Print (ValueLine voting_result),
                 CloseProcess False], ticks = 0\<rparr>)"
  using raising_stabilize
  by (simp add: poll_cycle_def cycle_body_def raising_env_def example_env_def initial_state_def
      seq_def emit_def print_msg_def try_finally_def close_handle_def refresh_wait_def
      continue_stmt_def voting_result_def)
     (simp add: raising_pm_def)

text \<open>
  Claim C2, as the code has it. In every iteration that attaches, the handle is acquired
  once, after the header is drawn, and released once, as the last action of the iteration,
  with nothing acquired or released in between; this holds however the cycle body ends,
  also when it raises, and whether or not closing raises (the result of closing is only
  recorded). No iteration ends with the handle held. The refresh wait of an attached
  iteration runs before the release: every sleep of such an iteration happens while the
  handle is held.
\<close>

theorem handle_released_at_end_of_cycle:
  "(attaches env pm \<longrightarrow>
      (\<exists>mid. new_events env entries s
           = [ClearScreen, Print Header, Attach] @ mid @ [CloseProcess (close_process pm = None)]
         \<and> quiet mid))
   \<and> \<not> held_after False (new_events env entries s)
   \<and> (Attach \<in> set (new_events env entries s) \<longrightarrow>
        sleeps_while_held False (new_events env entries s)
          = (Sleep \<in> set (new_events env entries s)))"
  using new_events_attached [of env pm entries s] cycle_releases_handle [of env entries s]
    attached_cycle_sleeps_while_held [of env entries s]
  by blast

theorem handle_released_at_end_of_cycle_witness:
  "attaches raising_env raising_pm
   \<and> fst (poll_cycle raising_env voting_entries initial_state) = Raise OSError
   \<and> new_events raising_env voting_entries initial_state
       = [ClearScreen, Print Header, Attach, Print (ValueLine voting_result), CloseProcess False]
   \<and> (\<exists>mid. new_events raising_env voting_entries initial_state
           = [ClearScreen, Print Header, Attach] @ mid @ [CloseProcess (close_process raising_pm = None)]
         \<and> quiet mid)
   \<and> Attach \<in> set (new_events (example_env voting_pm) voting_entries initial_state)
   \<and> Sleep \<in> set (new_events (example_env voting_pm) voting_entries initial_state)
   \<and> sleeps_while_held False (new_events (example_env voting_pm) voting_entries initial_state)"
proof -
  have a: "attaches raising_env raising_pm"
    by (simp add: attaches_def raising_env_def example_env_def)
  have c: "fst (poll_cycle raising_env voting_entries initial_state) = Raise OSError"
    by (simp add: raising_cycle)
  have n: "new_events raising_env voting_entries initial_state
       = [ClearScreen, Print Header, Attach, Print (ValueLine voting_result), CloseProcess False]"
    unfolding new_events_def raising_cycle by (simp add: initial_state_def)
  from handle_released_at_end_of_cycle [of raising_env raising_pm voting_entries initial_state] a
  have m: "\<exists>mid. new_events raising_env voting_entries initial_state
           = [ClearScreen, Print Header, Attach] @ mid @ [CloseProcess (close_process raising_pm = None)]
         \<and> quiet mid" by blast
  have at: "Attach \<in> set (new_events (example_env voting_pm) voting_entries initial_state)"
    and sl: "Sleep \<in> set (new_events (example_env voting_pm) voting_entries initial_state)"
    by (simp_all add: voting_cycle_events)
  from handle_released_at_end_of_cycle [of "example_env voting_pm" voting_pm voting_entries
      initial_state] at sl
  have "sleeps_while_held False (new_events (example_env voting_pm) voting_entries initial_state)"
    by blast
  with a c n m at sl show ?thesis by blast
qed

theorem handle_held_across_wait_counterexample:
  "new_events (example_env voting_pm) voting_entries initial_state =
     [ClearScreen, Print Header, Attach, Print (ValueLine voting_result), Print (GhostChart 7),
      Print (EvidenceChart 7), Print Refreshing, Sleep, Sleep, CloseProcess True]
   \<and> sleeps_while_held False
       [ClearScreen, Print Header, Attach, Print (ValueLine voting_result), Print (GhostChart 7),
        Print (EvidenceChart 7), Print Refreshing, Sleep, Sleep, CloseProcess True]"
  using voting_cycle_events by simp


lemma state_independentI:
  "(\<And>s. fst (f s) = c
      \<and> (\<exists>evs. events (snd (f s)) = events s @ evs \<and> filter (\<lambda>ev. ev \<noteq> Sleep) evs = out))
   \<Longrightarrow> state_independent f"
  unfolding state_independent_def by blast

lemma seq_not_normal: "fst (f s) \<noteq> Normal \<Longrightarrow> seq f g s = f s"
  unfolding seq_def by (auto split: prod.splits completion.splits)

lemma state_independent_seq:
  assumes f: "state_independent f" and g: "state_independent g"
  shows "state_independent (seq f g)"
proof -
  from f obtain cf outf where
    F: "\<And>s. fst (f s) = cf
          \<and> (\<exists>evs. events (snd (f s)) = events s @ evs \<and> filter (\<lambda>ev. ev \<noteq> Sleep) evs = outf)"
    unfolding state_independent_def by blast
  from g obtain cg outg where
    G: "\<And>s. fst (g s) = cg
          \<and> (\<exists>evs. events (snd (g s)) = events s @ evs \<and> filter (\<lambda>ev. ev \<noteq> Sleep) evs = outg)"
    unfolding state_independent_def by blast
  show ?thesis
  proof (cases "cf = Normal")
    case True
    show ?thesis
    proof (rule state_independentI [where c = cg and out = "outf @ outg"])
      fix s
      obtain s' where fs: "f s = (Normal, s')" using F [of s] True by (cases "f s") auto
      from F [of s] fs obtain xs where xs: "events s' = events s @ xs"
        "filter (\<lambda>ev. ev \<noteq> Sleep) xs = outf" by auto
      from G [of s'] obtain ys where ys: "events (snd (g s')) = events s' @ ys"
        "filter (\<lambda>ev. ev \<noteq> Sleep) ys = outg" and cg: "fst (g s') = cg" by blast
      have e: "seq f g s = g s'" using fs by (simp add: seq_def)
      have "events (snd (seq f g s)) = events s @ (xs @ ys)" using e xs ys by simp
      moreover have "filter (\<lambda>ev. ev \<noteq> Sleep) (xs @ ys) = outf @ outg" using xs ys by simp
      ultimately show "fst (seq f g s) = cg
        \<and> (\<exists>evs. events (snd (seq f g s)) = events s @ evs
              \<and> filter (\<lambda>ev. ev \<noteq> Sleep) evs = outf @ outg)"
        using e cg by auto
    qed
  next
    case False
    show ?thesis
    proof (rule state_independentI [where c = cf and out = outf])
      fix s
      have "fst (f s) \<noteq> Normal" using F [of s] False by simp
      then have "seq f g s = f s" by (rule seq_not_normal)
      with F [of s] show "fst (seq f g s) = cf
        \<and> (\<exists>evs. events (snd (seq f g s)) = events s @ evs
              \<and> filter (\<lambda>ev. ev \<noteq> Sleep) evs = outf)" by simp
    qed
  qed
qed

lemma state_independent_try_finally:
  assumes f: "state_independent f" and g: "state_independent g"
  shows "state_independent (try_finally f g)"
proof -
  from f obtain cf outf where
    F: "\<And>s. fst (f s) = cf
          \<and> (\<exists>evs. events (snd (f s)) = events s @ evs \<and> filter (\<lambda>ev. ev \<noteq> Sleep) evs = outf)"
    unfolding state_independent_def by blast
  from g obtain cg outg where
    G: "\<And>s. fst (g s) = cg
          \<and> (\<exists>evs. events (snd (g s)) = events s @ evs \<and> filter (\<lambda>ev. ev \<noteq> Sleep) evs = outg)"
    unfolding state_independent_def by blast
  show ?thesis
  proof (rule state_independentI [where c = "if cg = Normal then cf else cg" and out = "outf @ outg"])
    fix s
    obtain s' where fs: "f s = (cf, s')" using F [of s] by (cases "f s") auto
    from F [of s] fs obtain xs where xs: "events s' = events s @ xs"
      "filter (\<lambda>ev. ev \<noteq> Sleep) xs = outf" by auto
    obtain s'' where gs: "g s' = (cg, s'')" using G [of s'] by (cases "g s'") auto
    from G [of s'] gs obtain ys where ys: "events s'' = events s' @ ys"
      "filter (\<lambda>ev. ev \<noteq> Sleep) ys = outg" by auto
    have e: "try_finally f g s = (if cg = Normal then cf else cg, s'')"
      using fs gs by (cases cg) (simp_all add: try_finally_def)
    have "events s'' = events s @ (xs @ ys)" using xs ys by simp
    moreover have "filter (\<lambda>ev. ev \<noteq> Sleep) (xs @ ys) = outf @ outg" using xs ys by simp
    ultimately have "\<exists>evs. events s'' = events s @ evs
              \<and> filter (\<lambda>ev. ev \<noteq> Sleep) evs = outf @ outg" by blast
    then show "fst (try_finally f g s) = (if cg = Normal then cf else cg)
        \<and> (\<exists>evs. events (snd (try_finally f g s)) = events s @ evs
              \<and> filter (\<lambda>ev. ev \<noteq> Sleep) evs = outf @ outg)"
      unfolding e by simp
  qed
qed

lemma state_independent_emit: "state_independent (emit ev)"
proof (rule state_independentI [where c = Normal and out = "filter (\<lambda>ev. ev \<noteq> Sleep) [ev]"])
  fix s
  have "events (snd (emit ev s)) = events s @ [ev]" by (simp add: emit_def)
  then have "\<exists>evs. events (snd (emit ev s)) = events s @ evs
           \<and> filter (\<lambda>ev. ev \<noteq> Sleep) evs = filter (\<lambda>ev. ev \<noteq> Sleep) [ev]" by blast
  moreover have "fst (emit ev s) = Normal" by (simp add: emit_def)
  ultimately show "fst (emit ev s) = Normal
     \<and> (\<exists>evs. events (snd (emit ev s)) = events s @ evs
           \<and> filter (\<lambda>ev. ev \<noteq> Sleep) evs = filter (\<lambda>ev. ev \<noteq> Sleep) [ev])"
    by blast
qed

lemma state_independent_print: "state_independent (print_msg env msg)"
proof (cases "print_raises env msg")
  case True
  show ?thesis
  proof (rule state_independentI [where c = "Raise OSError" and out = "[]"])
    fix s
    have "events (snd (print_msg env msg s)) = events s @ []" using True
      by (simp add: print_msg_def)
    moreover have "filter (\<lambda>ev. ev \<noteq> Sleep) [] = []" by simp
    moreover have "fst (print_msg env msg s) = Raise OSError" using True
      by (simp add: print_msg_def)
    ultimately show "fst (print_msg env msg s) = Raise OSError
      \<and> (\<exists>evs. events (snd (print_msg env msg s)) = events s @ evs
            \<and> filter (\<lambda>ev. ev \<noteq> Sleep) evs = [])" by blast
  qed
next
  case False
  show ?thesis
  proof (rule state_independentI [where c = Normal and out = "[Print msg]"])
    fix s
    have "events (snd (print_msg env msg s)) = events s @ [Print msg]" using False
      by (simp add: print_msg_def)
    moreover have "filter (\<lambda>ev. ev \<noteq> Sleep) [Print msg] = [Print msg]" by simp
    moreover have "fst (print_msg env msg s) = Normal" using False
      by (simp add: print_msg_def)
    ultimately show "fst (print_msg env msg s) = Normal
      \<and> (\<exists>evs. events (snd (print_msg env msg s)) = events s @ evs
            \<and> filter (\<lambda>ev. ev \<noteq> Sleep) evs = [Print msg])" by blast
  qed
qed

lemma state_independent_wait: "state_independent (refresh_wait env)"
proof (rule state_independentI [where c = Normal and out = "[]"])
  fix s
  from wait_ticks_events obtain k where
    "events (wait_ticks env (nat (max 1 (REFRESH_INTERVAL env))) s) = events s @ replicate k Sleep"
    by blast
  then have "events (snd (refresh_wait env s)) = events s @ replicate k Sleep"
    by (simp add: refresh_wait_def)
  moreover have "filter (\<lambda>ev. ev \<noteq> Sleep) (replicate k Sleep) = []" by simp
  moreover have "fst (refresh_wait env s) = Normal" by (simp add: refresh_wait_def)
  ultimately show "fst (refresh_wait env s) = Normal
      \<and> (\<exists>evs. events (snd (refresh_wait env s)) = events s @ evs
            \<and> filter (\<lambda>ev. ev \<noteq> Sleep) evs = [])" by blast
qed

lemma state_independent_const: "state_independent (\<lambda>s. (c, s))"
proof (rule state_independentI [where c = c and out = "[]"])
  fix s :: loop_state
  have "events (snd (c, s)) = events s @ []" by simp
  moreover have "filter (\<lambda>ev. ev \<noteq> Sleep) [] = []" by simp
  ultimately have "\<exists>evs. events (snd (c, s)) = events s @ evs
      \<and> filter (\<lambda>ev. ev \<noteq> Sleep) evs = []" by blast
  then show "fst (c, s) = c
      \<and> (\<exists>evs. events (snd (c, s)) = events s @ evs \<and> filter (\<lambda>ev. ev \<noteq> Sleep) evs = [])"
    by simp
qed

lemma state_independent_continue: "state_independent continue_stmt"
proof (rule state_independentI [where c = Continue and out = "[]"])
  fix s :: loop_state
  have "events (snd (continue_stmt s)) = events s @ []" by (simp add: continue_stmt_def)
  moreover have "filter (\<lambda>ev. ev \<noteq> Sleep) [] = []" by simp
  moreover have "fst (continue_stmt s) = Continue" by (simp add: continue_stmt_def)
  ultimately show "fst (continue_stmt s) = Continue
      \<and> (\<exists>evs. events (snd (continue_stmt s)) = events s @ evs
            \<and> filter (\<lambda>ev. ev \<noteq> Sleep) evs = [])"
    by blast
qed

lemma state_independent_failure_path:
  "state_independent (seq (print_msg env msg) (seq (refresh_wait env) continue_stmt))"
  by (intro state_independent_seq state_independent_print state_independent_wait
      state_independent_continue)

lemma state_independent_cycle_body: "state_independent (cycle_body env pm entries)"
proof (cases "stabilize pm entries")
  case NoValidPointers
  then show ?thesis unfolding cycle_body_def
    by (simp only: outcome.case state_independent_failure_path)
next
  case MemoryReadFailed
  then show ?thesis unfolding cycle_body_def
    by (simp only: outcome.case state_independent_failure_path)
next
  case (Stabilized r)
  have "state_independent (seq (print_msg env (ValueLine r))
            (seq (print_msg env (GhostChart (stabilized_value r)))
              (seq (print_msg env (EvidenceChart (stabilized_value r)))
                (seq (print_msg env Refreshing) (refresh_wait env)))))"
    by (intro state_independent_seq state_independent_print state_independent_wait)
  with Stabilized show ?thesis unfolding cycle_body_def by (simp only: outcome.case)
next
  case (Raised e)
  then show ?thesis unfolding cycle_body_def
    by (simp only: outcome.case state_independent_const)
qed

lemma state_independent_attached:
  "state_independent (seq (emit Attach) (try_finally (cycle_body env pm entries) (close_handle pm)))"
  unfolding close_handle_def
  by (intro state_independent_seq state_independent_emit state_independent_try_finally
      state_independent_cycle_body)

lemma state_independent_poll_cycle: "state_independent (poll_cycle env entries)"
proof -
  let ?rest = "case find_pid_by_name env of
            None \<Rightarrow> seq (print_msg env GameNotRunning) (seq (refresh_wait env) continue_stmt)
          | Some pid \<Rightarrow>
              if pid = 0 then
                seq (print_msg env GameNotRunning) (seq (refresh_wait env) continue_stmt)
              else
                (case attach_process env of
                   Inl e \<Rightarrow> seq (print_msg env CouldNotAttach) (seq (refresh_wait env) continue_stmt)
                 | Inr pm \<Rightarrow>
                     seq (emit Attach) (try_finally (cycle_body env pm entries) (close_handle pm)))"
  have "state_independent ?rest"
  proof (cases "find_pid_by_name env")
    case None
    then show ?thesis by (simp only: option.case state_independent_failure_path)
  next
    case (Some pid)
    show ?thesis
    proof (cases "pid = 0")
      case True
      with Some show ?thesis by (simp add: state_independent_failure_path)
    next
      case False
      show ?thesis
      proof (cases "attach_process env")
        case (Inl e)
        with Some False show ?thesis
          by (simp only: option.case if_False sum.case state_independent_failure_path)
      next
        case (Inr pm)
        with Some False show ?thesis
          by (simp only: option.case if_False sum.case state_independent_attached)
      qed
    qed
  qed
  then show ?thesis unfolding poll_cycle_def
    by (intro state_independent_seq state_independent_emit state_independent_print)
qed

lemma shown_results_append: "shown_results (xs @ ys) = shown_results xs @ shown_results ys"
  by (induction xs rule: shown_results.induct) simp_all

lemma shown_results_filter: "shown_results (filter (\<lambda>ev. ev \<noteq> Sleep) evs) = shown_results evs"
  by (induction evs rule: shown_results.induct) simp_all

lemma cycle_result_state_independent:
  "cycle_result env entries s = cycle_result env entries s'"
proof -
  from state_independent_poll_cycle [of env entries] obtain c out where
    P: "\<And>s. fst (poll_cycle env entries s) = c
          \<and> (\<exists>evs. events (snd (poll_cycle env entries s)) = events s @ evs
                \<and> filter (\<lambda>ev. ev \<noteq> Sleep) evs = out)"
    unfolding state_independent_def by blast
  have "\<And>s. cycle_result env entries s = shown_results out"
  proof -
    fix s
    from P [of s] obtain evs where "events (snd (poll_cycle env entries s)) = events s @ evs"
      and f: "filter (\<lambda>ev. ev \<noteq> Sleep) evs = out" by blast
    then have "new_events env entries s = evs" by (simp add: new_events_eq)
    then have "cycle_result env entries s = shown_results evs" by (simp add: cycle_result_def)
    also have "\<dots> = shown_results out" using f shown_results_filter [of evs] by simp
    finally show "cycle_result env entries s = shown_results out" .
  qed
  then show ?thesis by simp
qed

lemma stabilize_no_consensus_iff:
  "(stabilize pm entries = NoValidPointers) = (collect_results pm entries = [])"
proof (cases "collect_results pm entries = []")
  case True
  then show ?thesis by (simp add: stabilize_def)
next
  case False
  then have "map fst (collect_results pm entries) \<noteq> []" by simp
  from vote_winner [OF this] obtain w where
    "vote (map fst (collect_results pm entries))
       = [(w, count_list (map fst (collect_results pm entries)) w)]" by blast
  with False show ?thesis by (simp add: stabilize_def Let_def split: sum.splits)
qed

lemma stabilize_counts:
  assumes "stabilize pm entries = Stabilized r"
  shows "1 \<le> total_resolved r"
    and "total_resolved r = length (filter (tallied pm) entries)"
    and "agreement_count r \<le> total_resolved r"
    and "total_resolved r \<le> length entries"
proof -
  let ?as = "map fst (collect_results pm entries)"
  from stabilize_result [OF assms] have v: "vote ?as = [(winning_address r, agreement_count r)]"
    and t: "total_resolved r = length (collect_results pm entries)" by simp_all
  from assms have ne: "collect_results pm entries \<noteq> []"
    using stabilize_no_consensus_iff [of pm entries] by auto
  then show "1 \<le> total_resolved r" using t by (cases "collect_results pm entries") simp_all
  show l: "total_resolved r = length (filter (tallied pm) entries)"
    using t by (simp add: collect_results_length)
  from ne have "?as \<noteq> []" by simp
  from vote_winner [OF this] v have "agreement_count r = count_list ?as (winning_address r)"
    by auto
  then show "agreement_count r \<le> total_resolved r"
    using count_le_length [of ?as "winning_address r"] t by simp
  show "total_resolved r \<le> length entries" unfolding l by simp
qed

lemma nothing_resolved:
  assumes "\<forall>e \<in> set entries. resolve_pointer pm (fst e) (fst (snd e)) (snd (snd e)) = None"
  shows "stabilize pm entries = NoValidPointers"
proof -
  have "\<forall>e \<in> set entries. \<not> tallied pm e" using assms by (auto simp: tallied_def)
  then have "filter (tallied pm) entries = []" by (simp add: filter_empty_conv)
  then have "collect_results pm entries = []" by (simp add: collect_results_empty_iff)
  then show ?thesis by (simp add: stabilize_no_consensus_iff)
qed

lemma shown_results_member:
  "r \<in> set (shown_results evs) \<Longrightarrow> Print (ValueLine r) \<in> set evs"
  by (induction evs rule: shown_results.induct) auto

lemma poll_cycle_results:
  assumes "r \<in> set (cycle_result env entries s)"
  shows "\<exists>pm. attach_process env = Inr pm \<and> stabilize pm entries = Stabilized r"
proof -
  define Q where "Q = (\<lambda>ev. \<forall>r. ev = Print (ValueLine r) \<longrightarrow>
      (\<exists>pm. attach_process env = Inr pm \<and> stabilize pm entries = Stabilized r))"
  have fail: "\<And>msg. (\<forall>r. msg \<noteq> ValueLine r) \<Longrightarrow>
      emits_only (seq (print_msg env msg) (seq (refresh_wait env) continue_stmt)) Q"
    by (rule emits_only_failure_path) (simp_all add: Q_def)
  have att: "\<And>pm. attach_process env = Inr pm \<Longrightarrow>
      emits_only (seq (emit Attach) (try_finally (cycle_body env pm entries) (close_handle pm))) Q"
  proof -
    fix pm assume a: "attach_process env = Inr pm"
    have "emits_only (cycle_body env pm entries) Q"
      by (rule emits_only_cycle_body) (auto simp: Q_def a)
    moreover have "emits_only (emit Attach) Q" by (rule emits_only_emit) (simp add: Q_def)
    moreover have "emits_only (close_handle pm) Q"
      unfolding close_handle_def by (rule emits_only_emit) (simp add: Q_def)
    ultimately show "emits_only (seq (emit Attach)
        (try_finally (cycle_body env pm entries) (close_handle pm))) Q"
      by (intro emits_only_seq emits_only_try_finally)
  qed
  have rest: "emits_only (case find_pid_by_name env of
            None \<Rightarrow> seq (print_msg env GameNotRunning) (seq (refresh_wait env) continue_stmt)
          | Some pid \<Rightarrow>
              if pid = 0 then
                seq (print_msg env GameNotRunning) (seq (refresh_wait env) continue_stmt)
              else
                (case attach_process env of
                   Inl e \<Rightarrow> seq (print_msg env CouldNotAttach) (seq (refresh_wait env) continue_stmt)
                 | Inr pm \<Rightarrow>
                     seq (emit Attach) (try_finally (cycle_body env pm entries) (close_handle pm)))) Q"
  proof (cases "find_pid_by_name env")
    case None
    then show ?thesis by (simp add: fail)
  next
    case (Some pid)
    show ?thesis
    proof (cases "pid = 0")
      case True
      with Some show ?thesis by (simp add: fail)
    next
      case False
      show ?thesis
      proof (cases "attach_process env")
        case (Inl e)
        with Some False show ?thesis by (simp add: fail)
      next
        case (Inr pm)
        with Some False att [OF Inr] show ?thesis by simp
      qed
    qed
  qed
  have "emits_only (emit ClearScreen) Q" by (rule emits_only_emit) (simp add: Q_def)
  moreover have "emits_only (print_msg env Header) Q" by (rule emits_only_print) (simp add: Q_def)
  ultimately have "emits_only (poll_cycle env entries) Q"
    unfolding poll_cycle_def using rest by (intro emits_only_seq)
  from emits_onlyD [OF this, of s] obtain evs where
    e: "events (snd (poll_cycle env entries s)) = events s @ evs" and q: "list_all Q evs" by blast
  from e have "cycle_result env entries s = shown_results evs"
    by (simp add: cycle_result_def new_events_eq)
  with assms have "Print (ValueLine r) \<in> set evs" by (simp add: shown_results_member)
  with q have "Q (Print (ValueLine r))" by (simp add: list_all_iff)
  then show ?thesis by (simp add: Q_def)
qed

text \<open>
  Claim C8, as the code has it. The aggregator reports that no valid pointer was found
  exactly when no entry is tallied, that is when no chain resolves to a non-zero address
  whose 4-byte value can be read; in particular it does so when no chain resolves. A result
  has a total of at least 1, equal to the number of tallied entries, an agreement count of
  at most the total, and a total of at most the number of definitions. A result is shown
  by an iteration only when the aggregator produced it, so none is shown when nothing is
  tallied.
\<close>

theorem no_consensus_iff_nothing_tallied:
  "((stabilize pm entries = NoValidPointers) = (filter (tallied pm) entries = []))
   \<and> ((\<forall>e \<in> set entries. resolve_pointer pm (fst e) (fst (snd e)) (snd (snd e)) = None) \<longrightarrow>
        stabilize pm entries = NoValidPointers)
   \<and> (stabilize pm entries = Stabilized r \<longrightarrow>
        1 \<le> total_resolved r \<and> total_resolved r = length (filter (tallied pm) entries)
        \<and> agreement_count r \<le> total_resolved r \<and> total_resolved r \<le> length entries)
   \<and> (r' \<in> set (cycle_result env entries s) \<longrightarrow>
        (\<exists>pm'. attach_process env = Inr pm' \<and> stabilize pm' entries = Stabilized r')
        \<and> 1 \<le> total_resolved r')"
proof -
  have 1: "(stabilize pm entries = NoValidPointers) = (filter (tallied pm) entries = [])"
    by (simp add: stabilize_no_consensus_iff collect_results_empty_iff)
  have 2: "(\<forall>e \<in> set entries. resolve_pointer pm (fst e) (fst (snd e)) (snd (snd e)) = None) \<longrightarrow>
        stabilize pm entries = NoValidPointers"
    using nothing_resolved [of entries pm] by blast
  have 3: "stabilize pm entries = Stabilized r \<longrightarrow>
        1 \<le> total_resolved r \<and> total_resolved r = length (filter (tallied pm) entries)
        \<and> agreement_count r \<le> total_resolved r \<and> total_resolved r \<le> length entries"
    using stabilize_counts [of pm entries r] by blast
  have 4: "r' \<in> set (cycle_result env entries s) \<longrightarrow>
        (\<exists>pm'. attach_process env = Inr pm' \<and> stabilize pm' entries = Stabilized r')
        \<and> 1 \<le> total_resolved r'"
  proof
    assume "r' \<in> set (cycle_result env entries s)"
    from poll_cycle_results [OF this] obtain pm' where
      p: "attach_process env = Inr pm'" "stabilize pm' entries = Stabilized r'" by blast
    with stabilize_counts(1) [OF p(2)] show
      "(\<exists>pm'. attach_process env = Inr pm' \<and> stabilize pm' entries = Stabilized r')
        \<and> 1 \<le> total_resolved r'" by blast
  qed
  from 1 2 3 4 show ?thesis by blast
qed

lemma scenario_no_consensus:
  "stabilize scenario_pm [(''Core'', 0x10, [0x4, 0x8])] = NoValidPointers"
  by (simp add: stabilize_def scenario_pm_def resolve_pointer_def resolve_pointer_body_def
      read_int32_def)

lemma voting_cycle_result:
  "cycle_result (example_env voting_pm) voting_entries initial_state = [voting_result]"
  by (simp add: cycle_result_def voting_cycle_events)

theorem no_consensus_iff_nothing_tallied_witness:
  "resolve_pointer scenario_pm ''Other'' 0 [] = None
   \<and> stabilize scenario_pm [(''Other'', 0, [])] = NoValidPointers
   \<and> filter (tallied scenario_pm) [(''Other'', 0, [])] = []
   \<and> stabilize voting_pm voting_entries = Stabilized voting_result
   \<and> total_resolved voting_result = length (filter (tallied voting_pm) voting_entries)
   \<and> voting_result \<in> set (cycle_result (example_env voting_pm) voting_entries initial_state)
   \<and> (\<exists>pm'. attach_process (example_env voting_pm) = Inr pm'
          \<and> stabilize pm' voting_entries = Stabilized voting_result)"
proof -
  have n: "resolve_pointer scenario_pm ''Other'' 0 [] = None"
    by (simp add: resolve_pointer_def resolve_pointer_body_def scenario_pm_def)
  have v: "stabilize voting_pm voting_entries = Stabilized voting_result"
    by (simp add: voting_stabilize voting_result_def)
  have c: "voting_result \<in> set (cycle_result (example_env voting_pm) voting_entries initial_state)"
    by (simp add: voting_cycle_result)
  note t1 = no_consensus_iff_nothing_tallied [of scenario_pm "[(''Other'', 0, [])]"]
  note t2 = no_consensus_iff_nothing_tallied [of voting_pm voting_entries voting_result
      voting_result "example_env voting_pm" initial_state]
  from n t1 have a: "stabilize scenario_pm [(''Other'', 0, [])] = NoValidPointers" by simp
  with t1 have b: "filter (tallied scenario_pm) [(''Other'', 0, [])] = []" by blast
  from v t2 have d: "total_resolved voting_result = length (filter (tallied voting_pm) voting_entries)"
    by blast
  from c t2 have e: "\<exists>pm'. attach_process (example_env voting_pm) = Inr pm'
          \<and> stabilize pm' voting_entries = Stabilized voting_result" by blast
  from n a b v d c e show ?thesis by blast
qed

theorem no_consensus_despite_resolved_address_counterexample:
  "resolve_pointer scenario_pm ''Core'' 0x10 [0x4, 0x8] = Some 0x3008
   \<and> stabilize scenario_pm [(''Core'', 0x10, [0x4, 0x8])] = NoValidPointers"
  using scenario_resolves scenario_no_consensus by simp

lemma unreadable_entry_excluded:
  assumes "resolve_pointer pm m b offs = Some a" and "isl (read_int32 pm a)"
  shows "\<not> tallied pm (m, b, offs)
     \<and> collect_results pm ((m, b, offs) # entries) = collect_results pm entries
     \<and> stabilize pm ((m, b, offs) # entries) = stabilize pm entries"
proof -
  have n: "\<not> tallied pm (m, b, offs)" using assms by (simp add: tallied_def)
  then have c: "collect_results pm ((m, b, offs) # entries) = collect_results pm entries"
    by (rule collect_results_skip)
  then have "stabilize pm ((m, b, offs) # entries) = stabilize pm entries"
    by (rule stabilize_cong)
  with n c show ?thesis by simp
qed

text \<open>
  Claim C1, as the code has it. An address whose 4-byte value cannot be read is never among
  the tallied addresses; an entry that resolves to such an address is skipped, so that the
  results, the vote and the total are what they are without the entry; the total counts
  exactly the entries that resolve to a non-zero address with a readable value.
\<close>

theorem failed_value_read_drops_entry:
  "(isl (read_int32 pm a) \<longrightarrow> a \<notin> set (map fst (collect_results pm entries)))
   \<and> (resolve_pointer pm m b offs = Some a \<and> isl (read_int32 pm a) \<longrightarrow>
        \<not> tallied pm (m, b, offs)
        \<and> collect_results pm ((m, b, offs) # entries) = collect_results pm entries
        \<and> stabilize pm ((m, b, offs) # entries) = stabilize pm entries)
   \<and> length (collect_results pm entries) = length (filter (tallied pm) entries)"
  using unreadable_addresses_not_tallied [of pm a entries]
    unreadable_entry_excluded [of pm m b offs a entries] collect_results_length [of pm entries]
  by blast

theorem failed_value_read_drops_entry_witness:
  "resolve_pointer voting_pm ''Core'' 0x10 [0x4, 0x10] = Some 0x3010
   \<and> isl (read_int32 voting_pm 0x3010)
   \<and> 0x3010 \<notin> set (map fst (collect_results voting_pm (unreadable_entry # voting_entries)))
   \<and> \<not> tallied voting_pm (''Core'', 0x10, [0x4, 0x10])
   \<and> stabilize voting_pm ((''Core'', 0x10, [0x4, 0x10]) # voting_entries)
       = stabilize voting_pm voting_entries"
proof -
  have r: "resolve_pointer voting_pm ''Core'' 0x10 [0x4, 0x10] = Some 0x3010"
    by (rule unreadable_entry_resolves)
  have i: "isl (read_int32 voting_pm 0x3010)" by (simp add: unreadable_entry_read)
  note t = failed_value_read_drops_entry [of voting_pm "0x3010" "unreadable_entry # voting_entries"]
  note t' = failed_value_read_drops_entry [of voting_pm "0x3010" voting_entries
      "''Core''" "0x10" "[0x4, 0x10]"]
  from t i have 1: "0x3010 \<notin> set (map fst (collect_results voting_pm (unreadable_entry # voting_entries)))"
    by blast
  from t' r i have 2: "\<not> tallied voting_pm (''Core'', 0x10, [0x4, 0x10])
      \<and> stabilize voting_pm ((''Core'', 0x10, [0x4, 0x10]) # voting_entries)
          = stabilize voting_pm voting_entries" by blast
  from r i 1 2 show ?thesis by blast
qed

theorem unreadable_address_dropped_counterexample:
  "resolve_pointer voting_pm ''Core'' 0x10 [0x4, 0x10] = Some 0x3010
   \<and> read_int32 voting_pm 0x3010 = Inl MemoryReadError
   \<and> 0x3010 \<notin> set (map fst (collect_results voting_pm (unreadable_entry # voting_entries)))
   \<and> stabilize voting_pm (unreadable_entry # voting_entries) =
        Stabilized \<lparr>winning_address = 0x3008, stabilized_value = 7, agreement_count = 2,
          total_resolved = 3\<rparr>"
proof -
  have i: "isl (read_int32 voting_pm 0x3010)" by (simp add: unreadable_entry_read)
  have "stabilize voting_pm (unreadable_entry # voting_entries) = stabilize voting_pm voting_entries"
    unfolding unreadable_entry_def
    using unreadable_entry_excluded [OF unreadable_entry_resolves i] by simp
  moreover have "0x3010 \<notin> set (map fst (collect_results voting_pm (unreadable_entry # voting_entries)))"
    using i by (rule unreadable_addresses_not_tallied)
  ultimately show ?thesis
    using unreadable_entry_resolves unreadable_entry_read voting_stabilize by simp
qed

text \<open>
  Claim C9. Running the iteration a second time, from the state the first run left, shows
  the same results as the first run; and two handles that see the same modules and the same
  memory give the same outcome of the aggregator. In the voting example each run shows the
  one result with winner \<open>0x3008\<close>, value 7 and 2 of 3.
\<close>

theorem cycle_result_repeatable:
  "cycle_result env entries (snd (poll_cycle env entries s)) = cycle_result env entries s
   \<and> (module_from_name pm1 = module_from_name pm2 \<and> read_bytes pm1 = read_bytes pm2 \<longrightarrow>
        stabilize pm1 entries = stabilize pm2 entries)
   \<and> cycle_result (example_env voting_pm) voting_entries initial_state = [voting_result]"
  using cycle_result_state_independent [of env entries "snd (poll_cycle env entries s)" s]
    stabilize_same_memory [of pm1 pm2 entries] voting_cycle_result
  by blast

theorem cycle_result_repeatable_witness:
  "module_from_name voting_pm = module_from_name raising_pm
   \<and> read_bytes voting_pm = read_bytes raising_pm
   \<and> stabilize voting_pm voting_entries = stabilize raising_pm voting_entries
   \<and> cycle_result (example_env voting_pm) voting_entries
        (snd (poll_cycle (example_env voting_pm) voting_entries initial_state)) = [voting_result]"
proof -
  have m: "module_from_name voting_pm = module_from_name raising_pm"
    and r: "read_bytes voting_pm = read_bytes raising_pm"
    by (simp_all add: raising_pm_def)
  note t = cycle_result_repeatable [of "example_env voting_pm" voting_entries initial_state
      voting_pm raising_pm]
  from t m r have "stabilize voting_pm voting_entries = stabilize raising_pm voting_entries"
    by blast
  moreover from t have "cycle_result (example_env voting_pm) voting_entries
        (snd (poll_cycle (example_env voting_pm) voting_entries initial_state)) = [voting_result]"
    by simp
  ultimately show ?thesis using m r by blast
qed

end
